theory Spec2Isabelle
  imports Main "HOL-Library.Word" "HOL-Library.Char_ord" "HOL-Library.List_Lexorder"
begin

unbundle bit_operations_syntax

section \<open>The OBF value model (src/ouzel/utils/OBF.h)\<close>

subsection \<open>Data model\<close>

text \<open>
  \<^verbatim>\<open>enum class Type: uint8_t\<close>, in declaration order; the enumerators have the
  values 0 to 12.
\<close>

datatype Type =
  NONE | INT8 | INT16 | INT32 | INT64 | FLOAT | DOUBLE | STRING | LONG_STRING
  | BYTE_ARRAY | OBJECT | ARRAY | DICTIONARY

type_synonym byte = "8 word"

text \<open>
  The private fields of \<^verbatim>\<open>class Value\<close>, all resident in every node whatever the tag.
  \<^item> \<^verbatim>\<open>uint64_t intValue\<close> and \<^verbatim>\<open>double doubleValue\<close> have no initialiser, so a
    constructor that does not mention them leaves them indeterminate: \<open>None\<close>. A double
    is its 64-bit pattern.
  \<^item> \<^verbatim>\<open>std::string\<close> is a list of bytes (\<open>char\<close>), \<^verbatim>\<open>std::vector\<close> a list.
  \<^item> \<^verbatim>\<open>std::map\<close> is an association list kept strictly ascending in the key, the
    order in which the map iterates (\<open>map_inv\<close> below).
\<close>

datatype Value =
  Value (type: Type)
        (intValue: "64 word option")
        (doubleValue: "64 word option")
        (stringValue: string)
        (byteArrayValue: "byte list")
        (objectValue: "(32 word \<times> Value) list")
        (arrayValue: "Value list")
        (dictionaryValue: "(string \<times> Value) list")

datatype error =
  AssertionFailed   \<comment> \<open>an \<^verbatim>\<open>assert\<close> of the header aborts\<close>
  | Indeterminate   \<comment> \<open>read of a field that was never written\<close>
  | UnknownTag      \<comment> \<open>decode: tag byte outside the enumeration\<close>
  | Truncated       \<comment> \<open>decode: the buffer ends before the payload does\<close>

text \<open>Field updates, one per member.\<close>

fun set_type :: "Type \<Rightarrow> Value \<Rightarrow> Value" where
  "set_type t (Value _ i d s b ob ar di) = Value t i d s b ob ar di"

fun set_intValue :: "64 word \<Rightarrow> Value \<Rightarrow> Value" where
  "set_intValue m (Value t _ d s b ob ar di) = Value t (Some m) d s b ob ar di"

fun set_doubleValue :: "64 word \<Rightarrow> Value \<Rightarrow> Value" where
  "set_doubleValue x (Value t i _ s b ob ar di) = Value t i (Some x) s b ob ar di"

fun set_stringValue :: "string \<Rightarrow> Value \<Rightarrow> Value" where
  "set_stringValue x (Value t i d _ b ob ar di) = Value t i d x b ob ar di"

fun set_byteArrayValue :: "byte list \<Rightarrow> Value \<Rightarrow> Value" where
  "set_byteArrayValue x (Value t i d s _ ob ar di) = Value t i d s x ob ar di"

fun set_objectValue :: "(32 word \<times> Value) list \<Rightarrow> Value \<Rightarrow> Value" where
  "set_objectValue x (Value t i d s b _ ar di) = Value t i d s b x ar di"

fun set_arrayValue :: "Value list \<Rightarrow> Value \<Rightarrow> Value" where
  "set_arrayValue x (Value t i d s b ob _ di) = Value t i d s b ob x di"

fun set_dictionaryValue :: "(string \<times> Value) list \<Rightarrow> Value \<Rightarrow> Value" where
  "set_dictionaryValue x (Value t i d s b ob ar _) = Value t i d s b ob ar x"

text \<open>
  \<^verbatim>\<open>assert(c)\<close> from \<^verbatim>\<open><cassert>\<close>: aborts when \<open>c\<close> is false, unless the
  translation unit is compiled with \<^verbatim>\<open>NDEBUG\<close>, where it expands to nothing.
\<close>

definition cassert :: "bool \<Rightarrow> bool \<Rightarrow> error + 'a \<Rightarrow> error + 'a" where
  "cassert ndebug c k = (if ndebug \<or> c then k else Inl AssertionFailed)"

definition is_int :: "Type \<Rightarrow> bool" where
  "is_int t = (t = INT8 \<or> t = INT16 \<or> t = INT32 \<or> t = INT64)"

subsection \<open>std::map\<close>

text \<open>The representation invariant of a \<^verbatim>\<open>std::map\<close>: keys strictly ascending.\<close>

definition map_inv :: "('k::linorder \<times> 'v) list \<Rightarrow> bool" where
  "map_inv m = sorted_wrt (<) (map fst m)"

text \<open>\<^verbatim>\<open>m.find(k)\<close>: the mapped value, or \<open>None\<close> for \<^verbatim>\<open>m.end()\<close>.\<close>

definition map_find :: "'k \<Rightarrow> ('k \<times> 'v) list \<Rightarrow> 'v option" where
  "map_find k m = map_of m k"

text \<open>\<^verbatim>\<open>m[k]\<close>: inserts the default \<open>d\<close> under \<open>k\<close> when the key is absent.\<close>

fun map_subscript :: "'k::linorder \<Rightarrow> 'v \<Rightarrow> ('k \<times> 'v) list \<Rightarrow> ('k \<times> 'v) list" where
  "map_subscript k d [] = [(k, d)]"
| "map_subscript k d ((k', v) # m) =
     (if k < k' then (k, d) # (k', v) # m
      else if k = k' then (k', v) # m
      else (k', v) # map_subscript k d m)"

text \<open>\<^verbatim>\<open>m[k] = v\<close>: inserts or overwrites.\<close>

fun map_assign :: "'k::linorder \<Rightarrow> 'v \<Rightarrow> ('k \<times> 'v) list \<Rightarrow> ('k \<times> 'v) list" where
  "map_assign k x [] = [(k, x)]"
| "map_assign k x ((k', v) # m) =
     (if k < k' then (k, x) # (k', v) # m
      else if k = k' then (k', x) # m
      else (k', v) # map_assign k x m)"

subsection \<open>Constructors\<close>

definition Value_default :: Value where
  \<comment> \<open>\<^verbatim>\<open>Value() {}\<close>: tag NONE by the member initialiser, scalars untouched, containers empty\<close>
  "Value_default = Value NONE None None [] [] [] [] []"

definition Value_Type :: "Type \<Rightarrow> Value" where
  \<comment> \<open>\<^verbatim>\<open>Value(Type aType): type(aType) {}\<close>\<close>
  "Value_Type aType = Value aType None None [] [] [] [] []"

definition Value_u8 :: "8 word \<Rightarrow> Value" where
  "Value_u8 v = Value INT8 (Some (ucast v)) None [] [] [] [] []"

definition Value_u16 :: "16 word \<Rightarrow> Value" where
  "Value_u16 v =
     (let intValue = (ucast v :: 64 word) in
      Value (if intValue > 255 then INT16 else INT8) (Some intValue) None [] [] [] [] [])"

definition Value_u32 :: "32 word \<Rightarrow> Value" where
  "Value_u32 v =
     (let intValue = (ucast v :: 64 word) in
      Value (if intValue > 65535 then INT32
             else if intValue > 255 then INT16
             else INT8) (Some intValue) None [] [] [] [] [])"

definition Value_u64 :: "64 word \<Rightarrow> Value" where
  "Value_u64 v =
     (let intValue = v in
      Value (if intValue > 4294967295 then INT64
             else if intValue > 65535 then INT32
             else if intValue > 255 then INT16
             else INT8) (Some intValue) None [] [] [] [] [])"

text \<open>
  \<^verbatim>\<open>Value(float value): type(Type::FLOAT), doubleValue(value)\<close> widens the float to a
  double. The conversion is the machine's, taken as the parameter \<open>widen\<close> (from the
  bits of a float to the bits of a double).
\<close>

definition Value_float :: "(32 word \<Rightarrow> 64 word) \<Rightarrow> 32 word \<Rightarrow> Value" where
  "Value_float widen v = Value FLOAT None (Some (widen v)) [] [] [] [] []"

definition Value_double :: "64 word \<Rightarrow> Value" where
  "Value_double v = Value DOUBLE None (Some v) [] [] [] [] []"

definition Value_string :: "string \<Rightarrow> Value" where
  "Value_string v =
     Value (if length v > 65535 then LONG_STRING else STRING) None None v [] [] [] []"

definition Value_bytes :: "byte list \<Rightarrow> Value" where
  "Value_bytes v = Value BYTE_ARRAY None None [] v [] [] []"

definition Value_map :: "(32 word \<times> Value) list \<Rightarrow> Value" where
  "Value_map v = Value OBJECT None None [] [] v [] []"

definition Value_vector :: "Value list \<Rightarrow> Value" where
  "Value_vector v = Value ARRAY None None [] [] [] v []"

subsection \<open>Assignment operators\<close>

definition assign_Type :: "Value \<Rightarrow> Type \<Rightarrow> Value" where
  \<comment> \<open>\<^verbatim>\<open>operator=(Type newType)\<close>\<close>
  "assign_Type this newType = set_type newType this"

definition assign_u8 :: "Value \<Rightarrow> 8 word \<Rightarrow> Value" where
  "assign_u8 this v = set_intValue (ucast v) (set_type INT8 this)"

definition assign_u16 :: "Value \<Rightarrow> 16 word \<Rightarrow> Value" where
  "assign_u16 this v =
     (let intValue = (ucast v :: 64 word) in
      set_type (if intValue > 255 then INT16 else INT8) (set_intValue intValue this))"

definition assign_u32 :: "Value \<Rightarrow> 32 word \<Rightarrow> Value" where
  "assign_u32 this v =
     (let intValue = (ucast v :: 64 word) in
      set_type (if intValue > 65535 then INT32
                else if intValue > 255 then INT16
                else INT8) (set_intValue intValue this))"

definition assign_u64 :: "Value \<Rightarrow> 64 word \<Rightarrow> Value" where
  "assign_u64 this v =
     (let intValue = v in
      set_type (if intValue > 4294967295 then INT64
                else if intValue > 65535 then INT32
                else if intValue > 255 then INT16
                else INT8) (set_intValue intValue this))"

definition assign_float :: "(32 word \<Rightarrow> 64 word) \<Rightarrow> Value \<Rightarrow> 32 word \<Rightarrow> Value" where
  "assign_float widen this v = set_doubleValue (widen v) (set_type FLOAT this)"

definition assign_double :: "Value \<Rightarrow> 64 word \<Rightarrow> Value" where
  "assign_double this v = set_doubleValue v (set_type DOUBLE this)"

definition assign_string :: "Value \<Rightarrow> string \<Rightarrow> Value" where
  "assign_string this v =
     set_type (if length v \<le> 65535 then STRING else LONG_STRING) (set_stringValue v this)"

definition assign_bytes :: "Value \<Rightarrow> byte list \<Rightarrow> Value" where
  "assign_bytes this v = set_byteArrayValue v (set_type BYTE_ARRAY this)"

definition assign_map :: "Value \<Rightarrow> (32 word \<times> Value) list \<Rightarrow> Value" where
  "assign_map this v = set_objectValue v (set_type OBJECT this)"

definition assign_vector :: "Value \<Rightarrow> Value list \<Rightarrow> Value" where
  "assign_vector this v = set_arrayValue v (set_type ARRAY this)"

subsection \<open>Accessors\<close>

text \<open>
  Every accessor takes the build mode first: \<open>ndebug = True\<close> is a build with
  \<^verbatim>\<open>NDEBUG\<close>, where the assertions are compiled out. \<^verbatim>\<open>getType\<close> is the selector
  \<open>type\<close>. A signed result is the bit pattern of the C++ value, read with \<open>sint\<close>.
\<close>

definition read_int :: "Value \<Rightarrow> error + 64 word" where
  "read_int this = (case intValue this of None \<Rightarrow> Inl Indeterminate | Some m \<Rightarrow> Inr m)"

definition asInt8 :: "bool \<Rightarrow> Value \<Rightarrow> error + 8 word" where
  "asInt8 ndebug this = cassert ndebug (is_int (type this))
     (map_sum id (\<lambda>m. ucast m) (read_int this))"

definition asUInt8 :: "bool \<Rightarrow> Value \<Rightarrow> error + 8 word" where
  "asUInt8 ndebug this = cassert ndebug (is_int (type this))
     (map_sum id (\<lambda>m. ucast m) (read_int this))"

definition asInt16 :: "bool \<Rightarrow> Value \<Rightarrow> error + 16 word" where
  "asInt16 ndebug this = cassert ndebug (is_int (type this))
     (map_sum id (\<lambda>m. ucast m) (read_int this))"

definition asUInt16 :: "bool \<Rightarrow> Value \<Rightarrow> error + 16 word" where
  "asUInt16 ndebug this = cassert ndebug (is_int (type this))
     (map_sum id (\<lambda>m. ucast m) (read_int this))"

definition asInt32 :: "bool \<Rightarrow> Value \<Rightarrow> error + 32 word" where
  "asInt32 ndebug this = cassert ndebug (is_int (type this))
     (map_sum id (\<lambda>m. ucast m) (read_int this))"

definition asUInt32 :: "bool \<Rightarrow> Value \<Rightarrow> error + 32 word" where
  "asUInt32 ndebug this = cassert ndebug (is_int (type this))
     (map_sum id (\<lambda>m. ucast m) (read_int this))"

definition asInt64 :: "bool \<Rightarrow> Value \<Rightarrow> error + 64 word" where
  "asInt64 ndebug this = cassert ndebug (is_int (type this))
     (map_sum id (\<lambda>m. ucast m) (read_int this))"

definition asUInt64 :: "bool \<Rightarrow> Value \<Rightarrow> error + 64 word" where
  "asUInt64 ndebug this = cassert ndebug (is_int (type this)) (read_int this)"

definition asVector :: "bool \<Rightarrow> Value \<Rightarrow> error + Value list" where
  "asVector ndebug this = cassert ndebug (type this = ARRAY) (Inr (arrayValue this))"

definition getSize :: "bool \<Rightarrow> Value \<Rightarrow> error + 32 word" where
  "getSize ndebug this =
     cassert ndebug (type this = ARRAY) (Inr (of_nat (length (arrayValue this))))"

text \<open>
  The const indexers return a \<^verbatim>\<open>Value\<close> by value. They are const members; the model
  threads the receiver through and returns it beside the result: (result, receiver
  after the call).
\<close>

definition index_const :: "bool \<Rightarrow> Value \<Rightarrow> 32 word \<Rightarrow> error + (Value \<times> Value)" where
  \<comment> \<open>\<^verbatim>\<open>Value operator[](uint32_t key) const\<close>\<close>
  "index_const ndebug this key =
     cassert ndebug (type this = OBJECT \<or> type this = ARRAY)
       (if type this = OBJECT then
          (case map_find key (objectValue this) of
             Some x \<Rightarrow> Inr (x, this)
           | None \<Rightarrow> Inr (Value_default, this))
        else if type this = ARRAY then
          (if unat key < length (arrayValue this)
           then Inr (arrayValue this ! unat key, this)
           else Inr (Value_default, this))
        else Inr (Value_default, this))"

definition index_const_str :: "bool \<Rightarrow> Value \<Rightarrow> string \<Rightarrow> error + (Value \<times> Value)" where
  \<comment> \<open>\<^verbatim>\<open>Value operator[](const std::string& key) const\<close>\<close>
  "index_const_str ndebug this key =
     cassert ndebug (type this = DICTIONARY)
       (case map_find key (dictionaryValue this) of
          Some x \<Rightarrow> Inr (x, this)
        | None \<Rightarrow> Inr (Value_default, this))"

text \<open>
  The mutable indexers return a reference into the receiver: the place it refers to,
  beside the receiver after the call. \<^verbatim>\<open>arrayValue[key]\<close> is the unchecked
  \<^verbatim>\<open>std::vector::operator[]\<close>: it checks nothing and fails nowhere; past the end
  of the vector the reference it returns is dangling (\<open>designates\<close> is false).
\<close>

datatype place = ObjectSlot "32 word" | ArraySlot nat | DictionarySlot string

definition designates :: "place \<Rightarrow> Value \<Rightarrow> bool" where
  \<comment> \<open>whether the place is an element that the node holds\<close>
  "designates p this =
     (case p of
        ObjectSlot k \<Rightarrow> map_find k (objectValue this) \<noteq> None
      | ArraySlot i \<Rightarrow> i < length (arrayValue this)
      | DictionarySlot k \<Rightarrow> map_find k (dictionaryValue this) \<noteq> None)"

definition index_mut :: "bool \<Rightarrow> Value \<Rightarrow> 32 word \<Rightarrow> error + (place \<times> Value)" where
  \<comment> \<open>\<^verbatim>\<open>Value& operator[](uint32_t key)\<close>\<close>
  "index_mut ndebug this key =
     cassert ndebug (type this = OBJECT \<or> type this = ARRAY)
       (if type this = OBJECT then
          Inr (ObjectSlot key,
               set_objectValue (map_subscript key Value_default (objectValue this)) this)
        else
          (let this' = set_type ARRAY this in
           Inr (ArraySlot (unat key), this')))"

definition index_mut_str :: "bool \<Rightarrow> Value \<Rightarrow> string \<Rightarrow> error + (place \<times> Value)" where
  \<comment> \<open>\<^verbatim>\<open>Value& operator[](const std::string& key)\<close>\<close>
  "index_mut_str ndebug this key =
     cassert ndebug (type this = DICTIONARY)
       (Inr (DictionarySlot key,
             set_dictionaryValue (map_subscript key Value_default (dictionaryValue this)) this))"

definition hasElement :: "bool \<Rightarrow> Value \<Rightarrow> 32 word \<Rightarrow> error + bool" where
  "hasElement ndebug this key =
     cassert ndebug (type this = OBJECT \<or> type this = ARRAY)
       (if type this = OBJECT then Inr (map_find key (objectValue this) \<noteq> None)
        else if type this = ARRAY then Inr (unat key < length (arrayValue this))
        else Inr False)"

definition hasElement_str :: "bool \<Rightarrow> Value \<Rightarrow> string \<Rightarrow> error + bool" where
  "hasElement_str ndebug this key =
     cassert ndebug (type this = DICTIONARY)
       (Inr (map_find key (dictionaryValue this) \<noteq> None))"

definition append_value :: "Value \<Rightarrow> Value \<Rightarrow> Value" where
  \<comment> \<open>\<^verbatim>\<open>void append(const Value& node) { arrayValue.push_back(node); }\<close>: no assertion\<close>
  "append_value this node = set_arrayValue (arrayValue this @ [node]) this"

subsection \<open>Vocabulary of the properties\<close>

text \<open>
  The tag-narrowing law in the specification's words: which tag a magnitude \<open>m\<close> gets.
\<close>

definition narrowing_law :: "Type \<Rightarrow> nat \<Rightarrow> bool" where
  "narrowing_law t m =
     ((t = INT8 \<longleftrightarrow> m \<le> 255) \<and>
      (t = INT16 \<longleftrightarrow> 255 < m \<and> m \<le> 65535) \<and>
      (t = INT32 \<longleftrightarrow> 65535 < m \<and> m \<le> 4294967295) \<and>
      (t = INT64 \<longleftrightarrow> 4294967295 < m))"

text \<open>
  The value of an \<open>n\<close>-bit pattern \<open>u\<close> (with \<open>0 \<le> u < 2 ^ n\<close>) read as a signed
  two's-complement number.
\<close>

definition twos_complement :: "nat \<Rightarrow> int \<Rightarrow> int" where
  "twos_complement n u = (if u < 2 ^ (n - 1) then u else u - 2 ^ n)"

section \<open>The binary codec\<close>

text \<open>
  \<^verbatim>\<open>Value::encode\<close> and \<^verbatim>\<open>Value::decode\<close> are declared in OBF.h (lines 240 and 241);
  the file that defines them is not among the sources. Every definition of this
  section is therefore modelled from the specification (section 4.2, the wire format),
  with the byte order fixed as big-endian, the order of the one payload the
  specification spells out (\<^verbatim>\<open>0x012C\<close> for 300).
\<close>

fun type_byte :: "Type \<Rightarrow> byte" where
  \<comment> \<open>Modelled from the spec: the tag byte of encode, the enumerator's value\<close>
  "type_byte NONE = 0"
| "type_byte INT8 = 1"
| "type_byte INT16 = 2"
| "type_byte INT32 = 3"
| "type_byte INT64 = 4"
| "type_byte FLOAT = 5"
| "type_byte DOUBLE = 6"
| "type_byte STRING = 7"
| "type_byte LONG_STRING = 8"
| "type_byte BYTE_ARRAY = 9"
| "type_byte OBJECT = 10"
| "type_byte ARRAY = 11"
| "type_byte DICTIONARY = 12"

definition byte_type :: "byte \<Rightarrow> Type option" where
  \<comment> \<open>Modelled from the spec: the tag byte read by decode; \<open>None\<close> is an unrecognized tag\<close>
  "byte_type b =
     (if b = 0 then Some NONE else if b = 1 then Some INT8 else if b = 2 then Some INT16
      else if b = 3 then Some INT32 else if b = 4 then Some INT64
      else if b = 5 then Some FLOAT else if b = 6 then Some DOUBLE
      else if b = 7 then Some STRING else if b = 8 then Some LONG_STRING
      else if b = 9 then Some BYTE_ARRAY else if b = 10 then Some OBJECT
      else if b = 11 then Some ARRAY else if b = 12 then Some DICTIONARY
      else None)"

definition byte_of_char :: "char \<Rightarrow> byte" where
  \<comment> \<open>Modelled from the spec: a byte of a string on the wire\<close>
  "byte_of_char c = of_nat (of_char c)"

definition char_of_byte :: "byte \<Rightarrow> char" where
  \<comment> \<open>Modelled from the spec: a byte of the wire in a string\<close>
  "char_of_byte b = char_of (unat b)"

definition put16 :: "16 word \<Rightarrow> byte list" where
  \<comment> \<open>Modelled from the spec: a 2-byte length prefix or payload of encode\<close>
  "put16 w = [ucast (drop_bit 8 w), ucast w]"

definition put32 :: "32 word \<Rightarrow> byte list" where
  \<comment> \<open>Modelled from the spec: a 4-byte length, count, key or payload of encode\<close>
  "put32 w = [ucast (drop_bit 24 w), ucast (drop_bit 16 w), ucast (drop_bit 8 w), ucast w]"

definition put64 :: "64 word \<Rightarrow> byte list" where
  \<comment> \<open>Modelled from the spec: an 8-byte payload of encode\<close>
  "put64 w = [ucast (drop_bit 56 w), ucast (drop_bit 48 w), ucast (drop_bit 40 w),
              ucast (drop_bit 32 w), ucast (drop_bit 24 w), ucast (drop_bit 16 w),
              ucast (drop_bit 8 w), ucast w]"

fun get8 :: "byte list \<Rightarrow> (byte \<times> byte list) option" where
  \<comment> \<open>Modelled from the spec: decode reads 1 byte, or finds the buffer at its end\<close>
  "get8 (a # r) = Some (a, r)"
| "get8 _ = None"

fun get16 :: "byte list \<Rightarrow> (16 word \<times> byte list) option" where
  \<comment> \<open>Modelled from the spec: decode reads 2 bytes, or finds the buffer too short\<close>
  "get16 (a # b # r) = Some (push_bit 8 (ucast a) OR ucast b, r)"
| "get16 _ = None"

fun get32 :: "byte list \<Rightarrow> (32 word \<times> byte list) option" where
  \<comment> \<open>Modelled from the spec: decode reads 4 bytes, or finds the buffer too short\<close>
  "get32 (a # b # c # d # r) =
     Some (push_bit 24 (ucast a) OR push_bit 16 (ucast b) OR push_bit 8 (ucast c) OR ucast d, r)"
| "get32 _ = None"

fun get64 :: "byte list \<Rightarrow> (64 word \<times> byte list) option" where
  \<comment> \<open>Modelled from the spec: decode reads 8 bytes, or finds the buffer too short\<close>
  "get64 (a # b # c # d # e # f # g # h # r) =
     Some (push_bit 56 (ucast a) OR push_bit 48 (ucast b) OR push_bit 40 (ucast c)
           OR push_bit 32 (ucast d) OR push_bit 24 (ucast e) OR push_bit 16 (ucast f)
           OR push_bit 8 (ucast g) OR ucast h, r)"
| "get64 _ = None"

definition get_bytes :: "nat \<Rightarrow> byte list \<Rightarrow> (byte list \<times> byte list) option" where
  \<comment> \<open>Modelled from the spec: decode reads \<open>n\<close> bytes, or finds the buffer too short\<close>
  "get_bytes n bs = (if n \<le> length bs then Some (take n bs, drop n bs) else None)"

fun append_wire :: "error + byte list \<Rightarrow> error + byte list \<Rightarrow> error + byte list" where
  \<comment> \<open>Modelled from the spec: encode writes one part after another\<close>
  "append_wire (Inl e) _ = Inl e"
| "append_wire (Inr a) (Inl e) = Inl e"
| "append_wire (Inr a) (Inr b) = Inr (a @ b)"

text \<open>
  The wire representation of a node, by tag (points 1 to 9 of the wire format). A
  scalar payload that was never written cannot be read: \<open>Indeterminate\<close>. An integer
  is truncated to the width of its tag and a length or count to the width of its
  prefix. The float payload of a FLOAT node is the stored double narrowed by the
  machine's conversion, the parameter \<open>narrow\<close>. The entries of a map are written in
  the map's order.
\<close>

definition wire_scalar ::
  "(64 word \<Rightarrow> 32 word) \<Rightarrow> Type \<Rightarrow> 64 word option \<Rightarrow> 64 word option \<Rightarrow> string \<Rightarrow> byte list
     \<Rightarrow> error + byte list" where
  \<comment> \<open>Modelled from the spec: the bytes that encode appends for a node without children
      (for a container tag, which \<open>wire\<close> handles itself, the tag byte alone)\<close>
  "wire_scalar narrow t i d s b =
     (case t of
        INT8 \<Rightarrow> (case i of None \<Rightarrow> Inl Indeterminate
                 | Some m \<Rightarrow> Inr (type_byte t # [ucast m]))
      | INT16 \<Rightarrow> (case i of None \<Rightarrow> Inl Indeterminate
                  | Some m \<Rightarrow> Inr (type_byte t # put16 (ucast m)))
      | INT32 \<Rightarrow> (case i of None \<Rightarrow> Inl Indeterminate
                  | Some m \<Rightarrow> Inr (type_byte t # put32 (ucast m)))
      | INT64 \<Rightarrow> (case i of None \<Rightarrow> Inl Indeterminate
                  | Some m \<Rightarrow> Inr (type_byte t # put64 m))
      | FLOAT \<Rightarrow> (case d of None \<Rightarrow> Inl Indeterminate
                  | Some x \<Rightarrow> Inr (type_byte t # put32 (narrow x)))
      | DOUBLE \<Rightarrow> (case d of None \<Rightarrow> Inl Indeterminate
                   | Some x \<Rightarrow> Inr (type_byte t # put64 x))
      | STRING \<Rightarrow> Inr (type_byte t # put16 (of_nat (length s)) @ map byte_of_char s)
      | LONG_STRING \<Rightarrow> Inr (type_byte t # put32 (of_nat (length s)) @ map byte_of_char s)
      | BYTE_ARRAY \<Rightarrow> Inr (type_byte t # put32 (of_nat (length b)) @ b)
      | _ \<Rightarrow> Inr [type_byte t])"

fun wire :: "(64 word \<Rightarrow> 32 word) \<Rightarrow> Value \<Rightarrow> error + byte list"
  and wire_array :: "(64 word \<Rightarrow> 32 word) \<Rightarrow> Value list \<Rightarrow> error + byte list"
  and wire_object :: "(64 word \<Rightarrow> 32 word) \<Rightarrow> (32 word \<times> Value) list \<Rightarrow> error + byte list"
  and wire_dictionary :: "(64 word \<Rightarrow> 32 word) \<Rightarrow> (string \<times> Value) list \<Rightarrow> error + byte list"
where
  \<comment> \<open>Modelled from the spec: the bytes that encode appends\<close>
  "wire narrow (Value t i d s b ob ar di) =
     (if t = OBJECT then
        append_wire (Inr (type_byte t # put32 (of_nat (length ob)))) (wire_object narrow ob)
      else if t = ARRAY then
        append_wire (Inr (type_byte t # put32 (of_nat (length ar)))) (wire_array narrow ar)
      else if t = DICTIONARY then
        append_wire (Inr (type_byte t # put32 (of_nat (length di))))
          (wire_dictionary narrow di)
      else wire_scalar narrow t i d s b)"
| "wire_array narrow [] = Inr []"
| "wire_array narrow (v # vs) = append_wire (wire narrow v) (wire_array narrow vs)"
| "wire_object narrow [] = Inr []"
| "wire_object narrow ((k, v) # es) =
     append_wire (append_wire (Inr (put32 k)) (wire narrow v)) (wire_object narrow es)"
| "wire_dictionary narrow [] = Inr []"
| "wire_dictionary narrow ((k, v) # es) =
     append_wire
       (append_wire (Inr (put16 (of_nat (length k)) @ map byte_of_char k)) (wire narrow v))
       (wire_dictionary narrow es)"

definition encode :: "(64 word \<Rightarrow> 32 word) \<Rightarrow> Value \<Rightarrow> byte list \<Rightarrow> error + (32 word \<times> byte list)" where
  \<comment> \<open>Modelled from the spec: \<^verbatim>\<open>uint32_t encode(std::vector<uint8_t>& buffer) const\<close>
      appends the node's wire representation to the end of the buffer and returns the
      number of bytes written, beside the buffer after the call\<close>
  "encode narrow this buffer =
     (case wire narrow this of
        Inl e \<Rightarrow> Inl e
      | Inr bs \<Rightarrow> Inr (of_nat (length bs), buffer @ bs))"

text \<open>
  Decoding one node from the front of the unread bytes, into the receiver \<open>this\<close>: the
  tag and the payload of that tag are written in place, and the unread rest is
  returned. A child is decoded into a default-constructed node. The argument after
  \<open>widen\<close> bounds the nesting: every node reads its tag byte first, so a node
  nested \<open>n\<close> deep lies behind \<open>n\<close> bytes, and \<open>decode\<close> starts with the number of
  unread bytes; when the bound is 0 there is no byte left for a tag.
\<close>

definition dec_scalar ::
  "(32 word \<Rightarrow> 64 word) \<Rightarrow> Type \<Rightarrow> Value \<Rightarrow> byte list \<Rightarrow> error + (Value \<times> byte list)" where
  \<comment> \<open>Modelled from the spec: the payload parsers of decode for a node without
      children (for a container tag, which \<open>dec\<close> handles itself, the tag alone)\<close>
  "dec_scalar widen t this bs =
     (case t of
        INT8 \<Rightarrow> (case get8 bs of None \<Rightarrow> Inl Truncated
                 | Some (w, r) \<Rightarrow> Inr (set_intValue (ucast w) (set_type t this), r))
      | INT16 \<Rightarrow> (case get16 bs of None \<Rightarrow> Inl Truncated
                  | Some (w, r) \<Rightarrow> Inr (set_intValue (ucast w) (set_type t this), r))
      | INT32 \<Rightarrow> (case get32 bs of None \<Rightarrow> Inl Truncated
                  | Some (w, r) \<Rightarrow> Inr (set_intValue (ucast w) (set_type t this), r))
      | INT64 \<Rightarrow> (case get64 bs of None \<Rightarrow> Inl Truncated
                  | Some (w, r) \<Rightarrow> Inr (set_intValue w (set_type t this), r))
      | FLOAT \<Rightarrow> (case get32 bs of None \<Rightarrow> Inl Truncated
                  | Some (w, r) \<Rightarrow> Inr (set_doubleValue (widen w) (set_type t this), r))
      | DOUBLE \<Rightarrow> (case get64 bs of None \<Rightarrow> Inl Truncated
                   | Some (w, r) \<Rightarrow> Inr (set_doubleValue w (set_type t this), r))
      | STRING \<Rightarrow>
          (case get16 bs of None \<Rightarrow> Inl Truncated
           | Some (len, r) \<Rightarrow>
              (case get_bytes (unat len) r of None \<Rightarrow> Inl Truncated
               | Some (payload, r') \<Rightarrow>
                   Inr (set_stringValue (map char_of_byte payload) (set_type t this), r')))
      | LONG_STRING \<Rightarrow>
          (case get32 bs of None \<Rightarrow> Inl Truncated
           | Some (len, r) \<Rightarrow>
              (case get_bytes (unat len) r of None \<Rightarrow> Inl Truncated
               | Some (payload, r') \<Rightarrow>
                   Inr (set_stringValue (map char_of_byte payload) (set_type t this), r')))
      | BYTE_ARRAY \<Rightarrow>
          (case get32 bs of None \<Rightarrow> Inl Truncated
           | Some (len, r) \<Rightarrow>
              (case get_bytes (unat len) r of None \<Rightarrow> Inl Truncated
               | Some (payload, r') \<Rightarrow>
                   Inr (set_byteArrayValue payload (set_type t this), r')))
      | _ \<Rightarrow> Inr (set_type t this, bs))"

definition store_entries :: "('k::linorder \<times> 'v) list \<Rightarrow> ('k \<times> 'v) list" where
  \<comment> \<open>Modelled from the spec: decode stores the entries it reads into the map, in
      the order of the wire\<close>
  "store_entries es = fold (\<lambda>(k, v). map_assign k v) es []"

primrec repeat_parse ::
  "nat \<Rightarrow> (byte list \<Rightarrow> error + ('a \<times> byte list)) \<Rightarrow> byte list \<Rightarrow> error + ('a list \<times> byte list)" where
  \<comment> \<open>Modelled from the spec: decode reads as many elements or entries as the count
      prefix says, one after the other, and stops at the first that fails\<close>
  "repeat_parse 0 p bs = Inr ([], bs)"
| "repeat_parse (Suc count) p bs =
     (case p bs of Inl e \<Rightarrow> Inl e
      | Inr (x, r) \<Rightarrow>
         (case repeat_parse count p r of Inl e \<Rightarrow> Inl e
          | Inr (xs, r') \<Rightarrow> Inr (x # xs, r')))"

definition object_entry ::
  "(byte list \<Rightarrow> error + (Value \<times> byte list)) \<Rightarrow> byte list
     \<Rightarrow> error + ((32 word \<times> Value) \<times> byte list)" where
  \<comment> \<open>Modelled from the spec: an entry of an OBJECT on the wire, a 4-byte key and the
      child, which the parser \<open>child\<close> reads\<close>
  "object_entry child bs =
     (case get32 bs of None \<Rightarrow> Inl Truncated
      | Some (k, r) \<Rightarrow>
         (case child r of Inl e \<Rightarrow> Inl e
          | Inr (v, r') \<Rightarrow> Inr ((k, v), r')))"

definition dictionary_entry ::
  "(byte list \<Rightarrow> error + (Value \<times> byte list)) \<Rightarrow> byte list
     \<Rightarrow> error + ((string \<times> Value) \<times> byte list)" where
  \<comment> \<open>Modelled from the spec: an entry of a DICTIONARY on the wire, a key with its
      2-byte length prefix and the child, which the parser \<open>child\<close> reads\<close>
  "dictionary_entry child bs =
     (case get16 bs of None \<Rightarrow> Inl Truncated
      | Some (len, r) \<Rightarrow>
         (case get_bytes (unat len) r of None \<Rightarrow> Inl Truncated
          | Some (k, r') \<Rightarrow>
             (case child r' of Inl e \<Rightarrow> Inl e
              | Inr (v, r'') \<Rightarrow> Inr ((map char_of_byte k, v), r''))))"

primrec dec ::
  "(32 word \<Rightarrow> 64 word) \<Rightarrow> nat \<Rightarrow> Value \<Rightarrow> byte list \<Rightarrow> error + (Value \<times> byte list)" where
  \<comment> \<open>Modelled from the spec: decode reads the tag byte and dispatches on it\<close>
  "dec widen 0 this bs = Inl Truncated"
| "dec widen (Suc n) this bs =
     (case bs of
        [] \<Rightarrow> Inl Truncated
      | tag # r \<Rightarrow>
         (case byte_type tag of
            None \<Rightarrow> Inl UnknownTag
          | Some t \<Rightarrow>
             (if t = OBJECT then
                (case get32 r of None \<Rightarrow> Inl Truncated
                 | Some (count, r') \<Rightarrow>
                    (case repeat_parse (unat count)
                            (object_entry (dec widen n Value_default)) r' of
                       Inl e \<Rightarrow> Inl e
                     | Inr (es, r'') \<Rightarrow>
                         Inr (set_objectValue (store_entries es) (set_type t this), r'')))
              else if t = ARRAY then
                (case get32 r of None \<Rightarrow> Inl Truncated
                 | Some (count, r') \<Rightarrow>
                    (case repeat_parse (unat count) (dec widen n Value_default) r' of
                       Inl e \<Rightarrow> Inl e
                     | Inr (vs, r'') \<Rightarrow> Inr (set_arrayValue vs (set_type t this), r'')))
              else if t = DICTIONARY then
                (case get32 r of None \<Rightarrow> Inl Truncated
                 | Some (count, r') \<Rightarrow>
                    (case repeat_parse (unat count)
                            (dictionary_entry (dec widen n Value_default)) r' of
                       Inl e \<Rightarrow> Inl e
                     | Inr (es, r'') \<Rightarrow>
                         Inr (set_dictionaryValue (store_entries es) (set_type t this), r'')))
              else dec_scalar widen t this r)))"

definition decode :: "(32 word \<Rightarrow> 64 word) \<Rightarrow> Value \<Rightarrow> byte list \<Rightarrow> 32 word \<Rightarrow> error + (32 word \<times> Value)" where
  \<comment> \<open>Modelled from the spec:
      \<^verbatim>\<open>uint32_t decode(const std::vector<uint8_t>& buffer, uint32_t offset = 0)\<close> reads
      the node that starts at \<open>offset\<close> into the receiver and returns the number of
      bytes consumed, beside the receiver after the call; a malformed buffer is an
      error result\<close>
  "decode widen this buffer offset =
     (let unread = drop (unat offset) buffer in
      case dec widen (length unread) this unread of
        Inl e \<Rightarrow> Inl e
      | Inr (this', rest) \<Rightarrow> Inr (of_nat (length unread - length rest), this'))"

subsection \<open>Representable values and the payload of a node\<close>

text \<open>
  What the wire format can carry, read off its widths: the magnitude of an integer
  node fits the width of its tag; the double of a FLOAT node is one that the narrowing
  conversion gives back unchanged when widened again (it is a float); a STRING has at
  most 65535 bytes, a LONG_STRING or BYTE_ARRAY fewer than \<open>2 ^ 32\<close>; a container has
  fewer than \<open>2 ^ 32\<close> entries, each representable; a key of a DICTIONARY has at most
  65535 bytes; a scalar payload that is to be written is not indeterminate. An OBJECT
  or DICTIONARY payload is a \<^verbatim>\<open>std::map\<close> (\<open>map_inv\<close>).
\<close>

definition representable_scalar ::
  "(64 word \<Rightarrow> 32 word) \<Rightarrow> (32 word \<Rightarrow> 64 word) \<Rightarrow> Type \<Rightarrow> 64 word option \<Rightarrow> 64 word option
     \<Rightarrow> string \<Rightarrow> byte list \<Rightarrow> bool" where
  "representable_scalar narrow widen t i d s b =
     (case t of
        INT8 \<Rightarrow> (case i of None \<Rightarrow> False | Some m \<Rightarrow> m \<le> 255)
      | INT16 \<Rightarrow> (case i of None \<Rightarrow> False | Some m \<Rightarrow> m \<le> 65535)
      | INT32 \<Rightarrow> (case i of None \<Rightarrow> False | Some m \<Rightarrow> m \<le> 4294967295)
      | INT64 \<Rightarrow> (case i of None \<Rightarrow> False | Some m \<Rightarrow> True)
      | FLOAT \<Rightarrow> (case d of None \<Rightarrow> False | Some x \<Rightarrow> widen (narrow x) = x)
      | DOUBLE \<Rightarrow> (case d of None \<Rightarrow> False | Some x \<Rightarrow> True)
      | STRING \<Rightarrow> length s \<le> 65535
      | LONG_STRING \<Rightarrow> length s < 2 ^ 32
      | BYTE_ARRAY \<Rightarrow> length b < 2 ^ 32
      | _ \<Rightarrow> True)"

fun representable :: "(64 word \<Rightarrow> 32 word) \<Rightarrow> (32 word \<Rightarrow> 64 word) \<Rightarrow> Value \<Rightarrow> bool"
  and representable_array :: "(64 word \<Rightarrow> 32 word) \<Rightarrow> (32 word \<Rightarrow> 64 word) \<Rightarrow> Value list \<Rightarrow> bool"
  and representable_object ::
    "(64 word \<Rightarrow> 32 word) \<Rightarrow> (32 word \<Rightarrow> 64 word) \<Rightarrow> (32 word \<times> Value) list \<Rightarrow> bool"
  and representable_dictionary ::
    "(64 word \<Rightarrow> 32 word) \<Rightarrow> (32 word \<Rightarrow> 64 word) \<Rightarrow> (string \<times> Value) list \<Rightarrow> bool"
where
  "representable narrow widen (Value t i d s b ob ar di) =
     (if t = OBJECT then
        length ob < 2 ^ 32 \<and> map_inv ob \<and> representable_object narrow widen ob
      else if t = ARRAY then
        length ar < 2 ^ 32 \<and> representable_array narrow widen ar
      else if t = DICTIONARY then
        length di < 2 ^ 32 \<and> map_inv di \<and> representable_dictionary narrow widen di
      else representable_scalar narrow widen t i d s b)"
| "representable_array narrow widen [] = True"
| "representable_array narrow widen (v # vs) =
     (representable narrow widen v \<and> representable_array narrow widen vs)"
| "representable_object narrow widen [] = True"
| "representable_object narrow widen ((k, v) # es) =
     (representable narrow widen v \<and> representable_object narrow widen es)"
| "representable_dictionary narrow widen [] = True"
| "representable_dictionary narrow widen ((k, v) # es) =
     (length k \<le> 65535 \<and> representable narrow widen v
      \<and> representable_dictionary narrow widen es)"

text \<open>
  The payload of a node: its tag and the one field that the tag makes valid, with the
  same for every descendant; the fields that the tag does not select are put to what
  a default-constructed node holds. Two nodes with the same \<open>active\<close> image have the
  same tag and the same payload, all the way down.
\<close>

fun active :: "Value \<Rightarrow> Value"
  and active_array :: "Value list \<Rightarrow> Value list"
  and active_object :: "(32 word \<times> Value) list \<Rightarrow> (32 word \<times> Value) list"
  and active_dictionary :: "(string \<times> Value) list \<Rightarrow> (string \<times> Value) list"
where
  "active (Value t i d s b ob ar di) =
     Value t
       (if is_int t then i else None)
       (if t = FLOAT \<or> t = DOUBLE then d else None)
       (if t = STRING \<or> t = LONG_STRING then s else [])
       (if t = BYTE_ARRAY then b else [])
       (if t = OBJECT then active_object ob else [])
       (if t = ARRAY then active_array ar else [])
       (if t = DICTIONARY then active_dictionary di else [])"
| "active_array [] = []"
| "active_array (v # vs) = active v # active_array vs"
| "active_object [] = []"
| "active_object ((k, v) # es) = (k, active v) # active_object es"
| "active_dictionary [] = []"
| "active_dictionary ((k, v) # es) = (k, active v) # active_dictionary es"


subsection \<open>The wire format as a grammar\<close>

text \<open>
  Points 1 to 9 of the wire format, read as a grammar: \<open>wire_node bs\<close> says that the
  bytes \<open>bs\<close> are exactly one complete node, a recognized tag byte followed by all of
  the payload that the tag and the length or count prefixes announce, and so for every
  element, entry and key inside it. \<open>wire_nodes n bs\<close> are \<open>n\<close> complete nodes one after
  the other, \<open>wire_object_entries n bs\<close> are \<open>n\<close> entries of an OBJECT (a 4-byte key and
  a node), \<open>wire_dictionary_entries n bs\<close> are \<open>n\<close> entries of a DICTIONARY (a key with
  its 2-byte length and a node).
\<close>

inductive wire_node :: "byte list \<Rightarrow> bool"
  and wire_nodes :: "nat \<Rightarrow> byte list \<Rightarrow> bool"
  and wire_object_entries :: "nat \<Rightarrow> byte list \<Rightarrow> bool"
  and wire_dictionary_entries :: "nat \<Rightarrow> byte list \<Rightarrow> bool"
where
  none: "wire_node [type_byte NONE]"
| int8: "length p = 1 \<Longrightarrow> wire_node (type_byte INT8 # p)"
| int16: "length p = 2 \<Longrightarrow> wire_node (type_byte INT16 # p)"
| int32: "length p = 4 \<Longrightarrow> wire_node (type_byte INT32 # p)"
| int64: "length p = 8 \<Longrightarrow> wire_node (type_byte INT64 # p)"
| float: "length p = 4 \<Longrightarrow> wire_node (type_byte FLOAT # p)"
| double: "length p = 8 \<Longrightarrow> wire_node (type_byte DOUBLE # p)"
| string: "length p = unat len \<Longrightarrow> wire_node (type_byte STRING # put16 len @ p)"
| long_string: "length p = unat len \<Longrightarrow> wire_node (type_byte LONG_STRING # put32 len @ p)"
| byte_array: "length p = unat len \<Longrightarrow> wire_node (type_byte BYTE_ARRAY # put32 len @ p)"
| object:
    "wire_object_entries (unat count) es \<Longrightarrow> wire_node (type_byte OBJECT # put32 count @ es)"
| array:
    "wire_nodes (unat count) es \<Longrightarrow> wire_node (type_byte ARRAY # put32 count @ es)"
| dictionary:
    "wire_dictionary_entries (unat count) es \<Longrightarrow>
     wire_node (type_byte DICTIONARY # put32 count @ es)"
| no_nodes: "wire_nodes 0 []"
| more_nodes: "wire_node x \<Longrightarrow> wire_nodes n xs \<Longrightarrow> wire_nodes (Suc n) (x @ xs)"
| no_object_entries: "wire_object_entries 0 []"
| more_object_entries:
    "length k = 4 \<Longrightarrow> wire_node x \<Longrightarrow> wire_object_entries n xs \<Longrightarrow>
     wire_object_entries (Suc n) (k @ x @ xs)"
| no_dictionary_entries: "wire_dictionary_entries 0 []"
| more_dictionary_entries:
    "length k = unat len \<Longrightarrow> wire_node x \<Longrightarrow> wire_dictionary_entries n xs \<Longrightarrow>
     wire_dictionary_entries (Suc n) (put16 len @ k @ x @ xs)"

code_pred wire_node .

section \<open>Properties of the value model\<close>

subsection \<open>Field updates\<close>

lemma type_set [simp]:
  "type (set_type t v) = t"
  "type (set_intValue m v) = type v"
  "type (set_doubleValue x v) = type v"
  "type (set_stringValue s v) = type v"
  "type (set_byteArrayValue b v) = type v"
  "type (set_objectValue ob v) = type v"
  "type (set_arrayValue ar v) = type v"
  "type (set_dictionaryValue di v) = type v"
  by (cases v; simp)+

lemma set_type_fields [simp]:
  "intValue (set_type t v) = intValue v"
  "doubleValue (set_type t v) = doubleValue v"
  "stringValue (set_type t v) = stringValue v"
  "byteArrayValue (set_type t v) = byteArrayValue v"
  "objectValue (set_type t v) = objectValue v"
  "arrayValue (set_type t v) = arrayValue v"
  "dictionaryValue (set_type t v) = dictionaryValue v"
  by (cases v; simp)+

lemma stringValue_set_stringValue [simp]: "stringValue (set_stringValue s v) = s"
  by (cases v) simp

lemma set_arrayValue_fields [simp]:
  "arrayValue (set_arrayValue ar v) = ar"
  "intValue (set_arrayValue ar v) = intValue v"
  "doubleValue (set_arrayValue ar v) = doubleValue v"
  "stringValue (set_arrayValue ar v) = stringValue v"
  "byteArrayValue (set_arrayValue ar v) = byteArrayValue v"
  "objectValue (set_arrayValue ar v) = objectValue v"
  "dictionaryValue (set_arrayValue ar v) = dictionaryValue v"
  by (cases v; simp)+

subsection \<open>Machine integers\<close>

lemma u8_bound: "unat (a :: 8 word) \<le> 255"
  using unsigned_less [of a, where ?'a = nat] by simp

lemma u16_bound: "unat (a :: 16 word) \<le> 65535"
  using unsigned_less [of a, where ?'a = nat] by simp

lemma u32_bound: "unat (a :: 32 word) \<le> 4294967295"
  using unsigned_less [of a, where ?'a = nat] by simp

lemma unat_up16: "unat (ucast (a :: 16 word) :: 64 word) = unat a"
  using unsigned_less [of a, where ?'a = nat]
  by (simp add: unsigned_ucast_eq take_bit_nat_eq_self)

lemma unat_up32: "unat (ucast (a :: 32 word) :: 64 word) = unat a"
  using unsigned_less [of a, where ?'a = nat]
  by (simp add: unsigned_ucast_eq take_bit_nat_eq_self)

lemma unat_ucast_mod:
  fixes m :: "'a::len word"
  shows "unat (ucast m :: 'b::len word) = unat m mod 2 ^ LENGTH('b)"
  by (simp add: unsigned_ucast_eq take_bit_eq_mod)

lemma signed_take_bit_range:
  fixes u :: int
  assumes "0 \<le> u" "u < 2 * p" "p = 2 ^ n"
  shows "signed_take_bit n u = (if u < p then u else u - 2 * p)"
proof (cases "u < p")
  case True
  then have "(u + p) mod (2 * p) = u + p"
    using assms by simp
  then show ?thesis using True assms(3)
    by (simp add: signed_take_bit_eq_take_bit_shift take_bit_eq_mod)
next
  case False
  have "(u + p) mod (2 * p) = (u + p - 2 * p) mod (2 * p)"
    by (metis minus_mod_self2)
  also have "\<dots> = u + p - 2 * p"
    using False assms(1,2) by (intro mod_pos_pos_trivial) linarith+
  finally show ?thesis using False assms(3)
    by (simp add: signed_take_bit_eq_take_bit_shift take_bit_eq_mod)
qed

lemma sint_ucast_twos:
  fixes m :: "'a::len word"
  shows "sint (ucast m :: 'b::len word) =
         twos_complement LENGTH('b) (uint m mod 2 ^ LENGTH('b))"
proof -
  let ?u = "uint m mod 2 ^ LENGTH('b)"
  let ?p = "2 ^ (LENGTH('b) - 1) :: int"
  have p: "2 * ?p = 2 ^ LENGTH('b)"
    using power_Suc [of "2::int" "LENGTH('b) - 1"] by simp
  have u: "uint (ucast m :: 'b word) = ?u"
    by (simp add: unsigned_ucast_eq take_bit_eq_mod)
  have r: "0 \<le> ?u" "?u < 2 * ?p"
    unfolding p by simp_all
  have "sint (ucast m :: 'b word) = signed_take_bit (LENGTH('b) - 1) ?u"
    by (simp add: sint_uint u)
  also have "\<dots> = (if ?u < ?p then ?u else ?u - 2 * ?p)"
    by (rule signed_take_bit_range [OF r refl])
  finally show ?thesis unfolding p twos_complement_def .
qed

lemma map_find_absent: "k \<notin> fst ` set m \<Longrightarrow> map_find k m = None"
  by (simp add: map_find_def map_of_eq_None_iff)

subsection \<open>Integer tags\<close>

lemma law_Value_u8: "narrowing_law (type (Value_u8 a)) (unat a)"
  using u8_bound [of a] by (simp add: narrowing_law_def Value_u8_def)

lemma law_Value_u16: "narrowing_law (type (Value_u16 a)) (unat a)"
  using u16_bound [of a]
  by (simp add: narrowing_law_def Value_u16_def Let_def word_less_nat_alt unat_up16)

lemma law_Value_u32: "narrowing_law (type (Value_u32 a)) (unat a)"
  using u32_bound [of a]
  by (simp add: narrowing_law_def Value_u32_def Let_def word_less_nat_alt unat_up32)

lemma law_Value_u64: "narrowing_law (type (Value_u64 a)) (unat a)"
  by (simp add: narrowing_law_def Value_u64_def Let_def word_less_nat_alt)

lemma law_assign_u8: "narrowing_law (type (assign_u8 v a)) (unat a)"
  using u8_bound [of a] by (simp add: narrowing_law_def assign_u8_def)

lemma law_assign_u16: "narrowing_law (type (assign_u16 v a)) (unat a)"
  using u16_bound [of a]
  by (simp add: narrowing_law_def assign_u16_def Let_def word_less_nat_alt unat_up16)

lemma law_assign_u32: "narrowing_law (type (assign_u32 v a)) (unat a)"
  using u32_bound [of a]
  by (simp add: narrowing_law_def assign_u32_def Let_def word_less_nat_alt unat_up32)

lemma law_assign_u64: "narrowing_law (type (assign_u64 v a)) (unat a)"
  by (simp add: narrowing_law_def assign_u64_def Let_def word_less_nat_alt)

text \<open>
  C3. Whichever of the four unsigned widths a magnitude comes in through, by a
  constructor or by an assignment to any node \<open>v\<close>, the tag is INT8 iff the magnitude
  is at most 255, INT16 iff it is in 256..65535, INT32 iff it is in 65536..4294967295,
  INT64 iff it is larger (\<open>narrowing_law\<close>). The assignment does not look at the node's
  previous tag, so a node tagged INT64 that is assigned a small magnitude is demoted.
\<close>

theorem tag_narrowing:
  "narrowing_law (type (Value_u8 a)) (unat a) \<and>
   narrowing_law (type (Value_u16 b)) (unat b) \<and>
   narrowing_law (type (Value_u32 c)) (unat c) \<and>
   narrowing_law (type (Value_u64 d)) (unat d) \<and>
   narrowing_law (type (assign_u8 v a)) (unat a) \<and>
   narrowing_law (type (assign_u16 v b)) (unat b) \<and>
   narrowing_law (type (assign_u32 v c)) (unat c) \<and>
   narrowing_law (type (assign_u64 v d)) (unat d)"
  by (intro conjI law_Value_u8 law_Value_u16 law_Value_u32 law_Value_u64
      law_assign_u8 law_assign_u16 law_assign_u32 law_assign_u64)

theorem tag_narrowing_witness:
  "type (Value_u8 200) = INT8 \<and> type (Value_u16 300) = INT16 \<and>
   type (Value_u32 70000) = INT32 \<and> type (Value_u64 1099511627776) = INT64 \<and>
   type (assign_u8 (Value_u64 1099511627776) 7) = INT8 \<and>
   type (assign_u16 (Value_u64 1099511627776) 255) = INT8 \<and>
   type (assign_u32 (Value_u64 1099511627776) 65535) = INT16 \<and>
   type (assign_u64 (Value_u64 1099511627776) 4294967295) = INT32"
  using tag_narrowing [of 200 300 70000 1099511627776 "Value_u64 1099511627776"]
    tag_narrowing [of 7 255 65535 4294967295 "Value_u64 1099511627776"]
  by (simp add: narrowing_law_def)

subsection \<open>String tags\<close>

text \<open>
  C4. Constructing a node from a string \<open>s\<close>, or assigning \<open>s\<close> to any node \<open>v\<close>, stores
  \<open>s\<close> as the string payload; the tag is STRING iff \<open>s\<close> has at most 65535 bytes and
  LONG_STRING iff it has more. The content of \<open>s\<close> plays no part.
\<close>

theorem string_tag:
  "stringValue (Value_string s) = s \<and>
   (type (Value_string s) = STRING \<longleftrightarrow> length s \<le> 65535) \<and>
   (type (Value_string s) = LONG_STRING \<longleftrightarrow> 65535 < length s) \<and>
   stringValue (assign_string v s) = s \<and>
   (type (assign_string v s) = STRING \<longleftrightarrow> length s \<le> 65535) \<and>
   (type (assign_string v s) = LONG_STRING \<longleftrightarrow> 65535 < length s)"
  by (simp add: Value_string_def assign_string_def)

theorem string_tag_witness:
  "type (Value_string ''hi'') = STRING \<and>
   type (Value_string (replicate 65536 CHR ''a'')) = LONG_STRING \<and>
   type (assign_string (Value_u8 5) (replicate 65535 CHR ''a'')) = STRING \<and>
   stringValue (assign_string (Value_u8 5) ''hi'') = ''hi''"
  using string_tag [of "''hi''" "Value_u8 5"]
    string_tag [of "replicate 65536 CHR ''a''" "Value_u8 5"]
    string_tag [of "replicate 65535 CHR ''a''" "Value_u8 5"]
  by simp

subsection \<open>Reading containers\<close>

text \<open>
  C5. The const indexers on a miss: for an OBJECT node \<open>ob\<close> and a key that is not in
  its map, for an ARRAY node \<open>ar\<close> and an index at or past its length, and for a
  DICTIONARY node \<open>di\<close> and a string key that is not in its map, the result is the
  default-constructed node, whose tag is NONE, and the receiver after the call is the
  receiver before it. This holds with assertions enabled and compiled out.
\<close>

theorem container_read_safety:
  "(type ob = OBJECT \<and> k \<notin> fst ` set (objectValue ob) \<longrightarrow>
      index_const ndebug ob k = Inr (Value_default, ob)) \<and>
   (type ar = ARRAY \<and> length (arrayValue ar) \<le> unat i \<longrightarrow>
      index_const ndebug ar i = Inr (Value_default, ar)) \<and>
   (type di = DICTIONARY \<and> s \<notin> fst ` set (dictionaryValue di) \<longrightarrow>
      index_const_str ndebug di s = Inr (Value_default, di)) \<and>
   type Value_default = NONE"
  by (simp add: index_const_def index_const_str_def cassert_def map_find_absent
      Value_default_def)

theorem container_read_safety_witness:
  "type (Value_map [(1, Value_u8 5)]) = OBJECT \<and>
   2 \<notin> fst ` set (objectValue (Value_map [(1, Value_u8 5)])) \<and>
   index_const False (Value_map [(1, Value_u8 5)]) 2 =
     Inr (Value_default, Value_map [(1, Value_u8 5)]) \<and>
   type (Value_vector [Value_u8 5]) = ARRAY \<and>
   length (arrayValue (Value_vector [Value_u8 5])) \<le> unat (1 :: 32 word) \<and>
   index_const False (Value_vector [Value_u8 5]) 1 =
     Inr (Value_default, Value_vector [Value_u8 5]) \<and>
   type (Value DICTIONARY None None [] [] [] [] [(''a'', Value_u8 5)]) = DICTIONARY \<and>
   ''b'' \<notin> fst ` set (dictionaryValue
      (Value DICTIONARY None None [] [] [] [] [(''a'', Value_u8 5)])) \<and>
   index_const_str False (Value DICTIONARY None None [] [] [] [] [(''a'', Value_u8 5)]) ''b'' =
     Inr (Value_default, Value DICTIONARY None None [] [] [] [] [(''a'', Value_u8 5)])"
  using container_read_safety [where ob = "Value_map [(1, Value_u8 5)]" and k = 2
      and ar = "Value_vector [Value_u8 5]" and i = 1
      and di = "Value DICTIONARY None None [] [] [] [] [(''a'', Value_u8 5)]"
      and s = "''b''" and ndebug = False]
  by (simp add: Value_map_def Value_vector_def)

subsection \<open>The mutable integer indexer\<close>

text \<open>
  C6, as stated, fails in a build with assertions enabled: on the default-constructed
  node (tag NONE) at index 0 the call stops at the assertion
  \<^verbatim>\<open>type == Type::OBJECT || type == Type::ARRAY\<close>, before any tag is written and
  before any reference is returned.
\<close>

theorem index_mut_coercion_counterexample:
  "type Value_default \<noteq> ARRAY \<and> type Value_default \<noteq> OBJECT \<and>
   index_mut False Value_default 0 = Inl AssertionFailed"
  by (simp add: index_mut_def cassert_def Value_default_def)

text \<open>
  C6, amended. In a build with assertions compiled out, invoking the mutable integer
  indexer on a node \<open>v\<close> whose tag is neither ARRAY nor OBJECT changes the tag to ARRAY,
  at every index, leaves every payload field as it was, and returns a reference into
  the array payload at that index; the reference is to an element that the node holds
  exactly when the index is below the length of the array payload. In a build with
  assertions enabled the call stops at its assertion.
\<close>

theorem index_mut_coercion:
  assumes "type v \<noteq> ARRAY" and "type v \<noteq> OBJECT"
  shows "index_mut False v key = Inl AssertionFailed \<and>
         index_mut True v key = Inr (ArraySlot (unat key), set_type ARRAY v) \<and>
         type (set_type ARRAY v) = ARRAY \<and>
         intValue (set_type ARRAY v) = intValue v \<and>
         doubleValue (set_type ARRAY v) = doubleValue v \<and>
         stringValue (set_type ARRAY v) = stringValue v \<and>
         byteArrayValue (set_type ARRAY v) = byteArrayValue v \<and>
         objectValue (set_type ARRAY v) = objectValue v \<and>
         arrayValue (set_type ARRAY v) = arrayValue v \<and>
         dictionaryValue (set_type ARRAY v) = dictionaryValue v \<and>
         (designates (ArraySlot (unat key)) (set_type ARRAY v)
            \<longleftrightarrow> unat key < length (arrayValue v))"
  using assms by (simp add: index_mut_def cassert_def Let_def designates_def)

theorem index_mut_coercion_witness:
  "type (assign_Type (Value_vector [Value_u8 5, Value_u8 6]) NONE) \<noteq> ARRAY \<and>
   type (assign_Type (Value_vector [Value_u8 5, Value_u8 6]) NONE) \<noteq> OBJECT \<and>
   index_mut False (assign_Type (Value_vector [Value_u8 5, Value_u8 6]) NONE) 1 =
     Inl AssertionFailed \<and>
   index_mut True (assign_Type (Value_vector [Value_u8 5, Value_u8 6]) NONE) 1 =
     Inr (ArraySlot 1, Value_vector [Value_u8 5, Value_u8 6]) \<and>
   designates (ArraySlot 1) (Value_vector [Value_u8 5, Value_u8 6]) \<and>
   type Value_default \<noteq> ARRAY \<and> type Value_default \<noteq> OBJECT \<and>
   index_mut True Value_default 0 = Inr (ArraySlot 0, Value_Type ARRAY) \<and>
   \<not> designates (ArraySlot 0) (Value_Type ARRAY)"
  using index_mut_coercion
    [of "assign_Type (Value_vector [Value_u8 5, Value_u8 6]) NONE" 1]
    index_mut_coercion [of Value_default 0]
  by (simp add: assign_Type_def Value_vector_def Value_default_def Value_Type_def)

subsection \<open>Appending\<close>

text \<open>
  C7. \<^verbatim>\<open>append\<close> carries no assertion: on any node, whatever its tag and in either
  build mode, it pushes onto the array payload and leaves the tag as it was. On the
  default-constructed node (tag NONE) the call goes through, where the sibling
  \<^verbatim>\<open>getSize\<close> stops at \<^verbatim>\<open>assert(type == Type::ARRAY)\<close>.
\<close>

theorem append_unchecked:
  "type (append_value v node) = type v \<and>
   arrayValue (append_value v node) = arrayValue v @ [node] \<and>
   append_value Value_default (Value_u8 5) =
     Value NONE None None [] [] [] [Value_u8 5] [] \<and>
   getSize False Value_default = Inl AssertionFailed \<and>
   asVector False Value_default = Inl AssertionFailed"
  by (simp add: append_value_def Value_default_def getSize_def asVector_def cassert_def)

subsection \<open>Integer accessors\<close>

text \<open>
  C8. For a node with one of the four integer tags whose stored magnitude is \<open>m\<close>:
  \<^verbatim>\<open>asUInt64\<close> returns \<open>m\<close>; \<^verbatim>\<open>asUInt8\<close>, \<^verbatim>\<open>asUInt16\<close> and \<^verbatim>\<open>asUInt32\<close> return \<open>m\<close>
  modulo \<open>2 ^ 8\<close>, \<open>2 ^ 16\<close> and \<open>2 ^ 32\<close>; \<^verbatim>\<open>asInt8\<close>, \<^verbatim>\<open>asInt16\<close>, \<^verbatim>\<open>asInt32\<close> and
  \<^verbatim>\<open>asInt64\<close> return \<open>m\<close> modulo \<open>2 ^ N\<close> read as an \<open>N\<close>-bit two's-complement number.
  Which of the four tags is active makes no difference, nor does the build mode.
\<close>

theorem integer_accessors:
  assumes "is_int (type v)" and "intValue v = Some m"
  shows "asUInt64 ndebug v = Inr m \<and>
         map_sum id unat (asUInt8 ndebug v) = Inr (unat m mod 2 ^ 8) \<and>
         map_sum id unat (asUInt16 ndebug v) = Inr (unat m mod 2 ^ 16) \<and>
         map_sum id unat (asUInt32 ndebug v) = Inr (unat m mod 2 ^ 32) \<and>
         map_sum id sint (asInt8 ndebug v) = Inr (twos_complement 8 (uint m mod 2 ^ 8)) \<and>
         map_sum id sint (asInt16 ndebug v) = Inr (twos_complement 16 (uint m mod 2 ^ 16)) \<and>
         map_sum id sint (asInt32 ndebug v) = Inr (twos_complement 32 (uint m mod 2 ^ 32)) \<and>
         map_sum id sint (asInt64 ndebug v) = Inr (twos_complement 64 (uint m mod 2 ^ 64))"
proof -
  have r: "read_int v = Inr m" using assms by (simp add: read_int_def)
  have c: "\<And>k :: error + 'x. cassert ndebug (is_int (type v)) k = k"
    using assms by (simp add: cassert_def)
  have s8: "sint (ucast m :: 8 word) = twos_complement 8 (uint m mod 2 ^ 8)"
    using sint_ucast_twos [of m, where ?'b = 8] by simp
  have s16: "sint (ucast m :: 16 word) = twos_complement 16 (uint m mod 2 ^ 16)"
    using sint_ucast_twos [of m, where ?'b = 16] by simp
  have s32: "sint (ucast m :: 32 word) = twos_complement 32 (uint m mod 2 ^ 32)"
    using sint_ucast_twos [of m, where ?'b = 32] by simp
  have s64: "sint (ucast m :: 64 word) = twos_complement 64 (uint m mod 2 ^ 64)"
    using sint_ucast_twos [of m, where ?'b = 64] by simp
  have u8: "unat (ucast m :: 8 word) = unat m mod 2 ^ 8"
    using unat_ucast_mod [of m, where ?'b = 8] by simp
  have u16: "unat (ucast m :: 16 word) = unat m mod 2 ^ 16"
    using unat_ucast_mod [of m, where ?'b = 16] by simp
  have u32: "unat (ucast m :: 32 word) = unat m mod 2 ^ 32"
    using unat_ucast_mod [of m, where ?'b = 32] by simp
  show ?thesis
    unfolding asUInt64_def asUInt8_def asUInt16_def asUInt32_def
      asInt8_def asInt16_def asInt32_def asInt64_def c r
    by (simp only: map_sum.simps id_apply s8 s16 s32 s64 u8 u16 u32 simp_thms)
qed

theorem integer_accessors_witness:
  "is_int (type (Value_u16 511)) \<and> intValue (Value_u16 511) = Some 511 \<and>
   asUInt64 False (Value_u16 511) = Inr 511 \<and>
   map_sum id unat (asUInt8 False (Value_u16 511)) = Inr 255 \<and>
   map_sum id sint (asInt8 False (Value_u16 511)) = Inr (- 1) \<and>
   map_sum id sint (asInt16 False (Value_u16 511)) = Inr 511"
  using integer_accessors [of "Value_u16 511" 511 False]
  by (simp add: Value_u16_def is_int_def twos_complement_def)

subsection \<open>Re-tagging\<close>

text \<open>
  C9. Assigning a bare tag \<open>t\<close> to a node \<open>v\<close> sets the tag to \<open>t\<close> and leaves the
  integer, double, string, byte-array, object, array and dictionary fields as they
  were; a node re-tagged to ARRAY shows, through \<^verbatim>\<open>asVector\<close>, the array payload it
  already held.
\<close>

theorem assign_Type_frame:
  "type (assign_Type v t) = t \<and>
   intValue (assign_Type v t) = intValue v \<and>
   doubleValue (assign_Type v t) = doubleValue v \<and>
   stringValue (assign_Type v t) = stringValue v \<and>
   byteArrayValue (assign_Type v t) = byteArrayValue v \<and>
   objectValue (assign_Type v t) = objectValue v \<and>
   arrayValue (assign_Type v t) = arrayValue v \<and>
   dictionaryValue (assign_Type v t) = dictionaryValue v \<and>
   asVector ndebug (assign_Type v ARRAY) = Inr (arrayValue v)"
  by (simp add: assign_Type_def asVector_def cassert_def)

subsection \<open>Containers constructed from a tag\<close>

text \<open>
  C10. A node constructed from a container tag alone is empty: \<^verbatim>\<open>getSize\<close> of
  \<^verbatim>\<open>Value(Type::ARRAY)\<close> is 0, and \<^verbatim>\<open>hasElement\<close> is false at every integer key of
  \<^verbatim>\<open>Value(Type::OBJECT)\<close> and \<^verbatim>\<open>Value(Type::ARRAY)\<close> and at every string key of
  \<^verbatim>\<open>Value(Type::DICTIONARY)\<close>, in either build mode.
\<close>

theorem tag_constructed_container_empty:
  "getSize ndebug (Value_Type ARRAY) = Inr 0 \<and>
   hasElement ndebug (Value_Type OBJECT) k = Inr False \<and>
   hasElement ndebug (Value_Type ARRAY) k = Inr False \<and>
   hasElement_str ndebug (Value_Type DICTIONARY) s = Inr False"
  by (simp add: getSize_def hasElement_def hasElement_str_def Value_Type_def cassert_def
      map_find_def)

section \<open>Properties of the codec\<close>

subsection \<open>Bytes of a word\<close>

lemma bytes16:
  "n < 16 \<Longrightarrow>
   bit (push_bit 8 (ucast (ucast (drop_bit 8 w) :: byte)) OR ucast (ucast w :: byte) :: 16 word) n
     = bit (w :: 16 word) n"
  apply (simp add: bit_simps less_diff_conv2 cong: conj_cong)
  apply (cases "bit w n"; simp)
  apply arith
  done

lemma bytes32:
  "n < 32 \<Longrightarrow>
   bit (push_bit 24 (ucast (ucast (drop_bit 24 w) :: byte)) OR
        push_bit 16 (ucast (ucast (drop_bit 16 w) :: byte)) OR
        push_bit 8 (ucast (ucast (drop_bit 8 w) :: byte)) OR ucast (ucast w :: byte) :: 32 word) n
     = bit (w :: 32 word) n"
  apply (simp add: bit_simps less_diff_conv2 cong: conj_cong)
  apply (cases "bit w n"; simp)
  apply arith
  done

lemma bytes64:
  "n < 64 \<Longrightarrow>
   bit (push_bit 56 (ucast (ucast (drop_bit 56 w) :: byte)) OR
        push_bit 48 (ucast (ucast (drop_bit 48 w) :: byte)) OR
        push_bit 40 (ucast (ucast (drop_bit 40 w) :: byte)) OR
        push_bit 32 (ucast (ucast (drop_bit 32 w) :: byte)) OR
        push_bit 24 (ucast (ucast (drop_bit 24 w) :: byte)) OR
        push_bit 16 (ucast (ucast (drop_bit 16 w) :: byte)) OR
        push_bit 8 (ucast (ucast (drop_bit 8 w) :: byte)) OR ucast (ucast w :: byte) :: 64 word) n
     = bit (w :: 64 word) n"
  apply (simp add: bit_simps less_diff_conv2 cong: conj_cong)
  apply (cases "bit w n"; simp)
  apply arith
  done

lemma get16_put16 [simp]: "get16 (put16 w @ r) = Some (w, r)"
proof -
  have "push_bit 8 (ucast (ucast (drop_bit 8 w) :: byte)) OR ucast (ucast w :: byte) = w"
    by (rule bit_word_eqI) (simp add: bytes16 del: bit_or_iff)
  then show ?thesis by (simp add: put16_def)
qed

lemma get32_put32 [simp]: "get32 (put32 w @ r) = Some (w, r)"
proof -
  have "push_bit 24 (ucast (ucast (drop_bit 24 w) :: byte)) OR
        push_bit 16 (ucast (ucast (drop_bit 16 w) :: byte)) OR
        push_bit 8 (ucast (ucast (drop_bit 8 w) :: byte)) OR ucast (ucast w :: byte) = w"
    by (rule bit_word_eqI) (simp add: bytes32 del: bit_or_iff)
  then show ?thesis by (simp add: put32_def)
qed

lemma get64_put64 [simp]: "get64 (put64 w @ r) = Some (w, r)"
proof -
  have "push_bit 56 (ucast (ucast (drop_bit 56 w) :: byte)) OR
        push_bit 48 (ucast (ucast (drop_bit 48 w) :: byte)) OR
        push_bit 40 (ucast (ucast (drop_bit 40 w) :: byte)) OR
        push_bit 32 (ucast (ucast (drop_bit 32 w) :: byte)) OR
        push_bit 24 (ucast (ucast (drop_bit 24 w) :: byte)) OR
        push_bit 16 (ucast (ucast (drop_bit 16 w) :: byte)) OR
        push_bit 8 (ucast (ucast (drop_bit 8 w) :: byte)) OR ucast (ucast w :: byte) = w"
    by (rule bit_word_eqI) (simp add: bytes64 del: bit_or_iff)
  then show ?thesis by (simp add: put64_def)
qed

lemma length_put [simp]:
  "length (put16 a) = 2" "length (put32 b) = 4" "length (put64 c) = 8"
  by (simp_all add: put16_def put32_def put64_def)

lemma narrow_back:
  fixes m :: "64 word"
  assumes "unat m < 2 ^ LENGTH('b::len)"
  shows "ucast (ucast m :: 'b word) = m"
proof -
  have "unat m < 2 ^ LENGTH(64)"
    by (rule unsigned_less)
  then have "unat (ucast (ucast m :: 'b word) :: 64 word) = unat m"
    using assms by (simp only: unat_ucast_mod mod_less)
  then show ?thesis by (simp add: word_unat_eq_iff)
qed

lemma narrow_back8: "(m :: 64 word) \<le> 255 \<Longrightarrow> ucast (ucast m :: 8 word) = m"
  by (rule narrow_back) (simp add: word_le_nat_alt)

lemma narrow_back16: "(m :: 64 word) \<le> 65535 \<Longrightarrow> ucast (ucast m :: 16 word) = m"
  by (rule narrow_back) (simp add: word_le_nat_alt)

lemma narrow_back32: "(m :: 64 word) \<le> 4294967295 \<Longrightarrow> ucast (ucast m :: 32 word) = m"
  by (rule narrow_back) (simp add: word_le_nat_alt)

lemma unat_length16: "n \<le> 65535 \<Longrightarrow> unat (of_nat n :: 16 word) = n"
  by (simp add: unat_of_nat)

lemma unat_length32: "n < 2 ^ 32 \<Longrightarrow> unat (of_nat n :: 32 word) = n"
  by (simp add: unat_of_nat)

lemma char_of_byte_of_char [simp]: "char_of_byte (byte_of_char c) = c"
  by (simp add: char_of_byte_def byte_of_char_def unat_of_nat)

lemma chars_of_bytes_of_chars [simp]: "map char_of_byte (map byte_of_char s) = s"
  by (induction s) simp_all

lemma get_bytes_append [simp]: "get_bytes (length xs) (xs @ r) = Some (xs, r)"
  by (simp add: get_bytes_def)

lemma byte_type_type_byte [simp]: "byte_type (type_byte t) = Some t"
  by (cases t) (simp_all add: byte_type_def)

lemma append_wire_Inr:
  "append_wire a b = Inr c \<longleftrightarrow> (\<exists>x y. a = Inr x \<and> b = Inr y \<and> c = x @ y)"
  by (cases a; cases b) auto

subsection \<open>Maps and payloads\<close>

lemma map_assign_last:
  "\<forall>k' \<in> set (map fst m). k' < k \<Longrightarrow> map_assign k x m = m @ [(k, x)]"
  by (induction m) auto

lemma fold_map_assign:
  "sorted_wrt (<) (map fst (acc @ es)) \<Longrightarrow> fold (\<lambda>(k, v). map_assign k v) es acc = acc @ es"
proof (induction es arbitrary: acc)
  case Nil
  then show ?case by simp
next
  case (Cons e es)
  obtain k v where e: "e = (k, v)" by (cases e)
  have "\<forall>k' \<in> set (map fst acc). k' < k"
    using Cons.prems by (auto simp: e sorted_wrt_append)
  then have "map_assign k v acc = acc @ [(k, v)]"
    by (rule map_assign_last)
  moreover have "sorted_wrt (<) (map fst ((acc @ [(k, v)]) @ es))"
    using Cons.prems by (simp add: e)
  ultimately show ?case
    using Cons.IH [of "acc @ [(k, v)]"] by (simp add: e)
qed

lemma store_entries_map: "map_inv es \<Longrightarrow> store_entries es = es"
  using fold_map_assign [of "[]" es] by (simp add: store_entries_def map_inv_def)

lemma active_idem:
  "active (active v) = active v"
  "active_array (active_array vs) = active_array vs"
  "active_object (active_object ob) = active_object ob"
  "active_dictionary (active_dictionary di) = active_dictionary di"
  by (induction v and vs and ob and di
      rule: active_active_array_active_object_active_dictionary.induct) simp_all

lemma active_object_keys: "map fst (active_object ob) = map fst ob"
  by (induction ob) auto

lemma active_dictionary_keys: "map fst (active_dictionary di) = map fst di"
  by (induction di) auto

subsection \<open>Nodes without children\<close>

lemma chars_of_bytes_comp [simp]: "map (char_of_byte \<circ> byte_of_char) s = s"
  by (induction s) simp_all

lemma get_bytes_chars [simp]:
  "get_bytes (length s) (map byte_of_char s @ r) = Some (map byte_of_char s, r)"
  using get_bytes_append [of "map byte_of_char s" r] by simp

lemma active_scalar_update:
  assumes "t \<noteq> OBJECT" "t \<noteq> ARRAY" "t \<noteq> DICTIONARY"
  shows
    "active (set_intValue m (set_type t this)) =
       Value t (if is_int t then Some m else None)
         (if t = FLOAT \<or> t = DOUBLE then doubleValue this else None)
         (if t = STRING \<or> t = LONG_STRING then stringValue this else [])
         (if t = BYTE_ARRAY then byteArrayValue this else []) [] [] []"
    "active (set_doubleValue x (set_type t this)) =
       Value t (if is_int t then intValue this else None)
         (if t = FLOAT \<or> t = DOUBLE then Some x else None)
         (if t = STRING \<or> t = LONG_STRING then stringValue this else [])
         (if t = BYTE_ARRAY then byteArrayValue this else []) [] [] []"
    "active (set_stringValue y (set_type t this)) =
       Value t (if is_int t then intValue this else None)
         (if t = FLOAT \<or> t = DOUBLE then doubleValue this else None)
         (if t = STRING \<or> t = LONG_STRING then y else [])
         (if t = BYTE_ARRAY then byteArrayValue this else []) [] [] []"
    "active (set_byteArrayValue z (set_type t this)) =
       Value t (if is_int t then intValue this else None)
         (if t = FLOAT \<or> t = DOUBLE then doubleValue this else None)
         (if t = STRING \<or> t = LONG_STRING then stringValue this else [])
         (if t = BYTE_ARRAY then z else []) [] [] []"
    "active (set_type t this) =
       Value t (if is_int t then intValue this else None)
         (if t = FLOAT \<or> t = DOUBLE then doubleValue this else None)
         (if t = STRING \<or> t = LONG_STRING then stringValue this else [])
         (if t = BYTE_ARRAY then byteArrayValue this else []) [] [] []"
  using assms by (cases this; simp)+

lemma scalar_update_default:
  "set_intValue m (set_type t Value_default) = Value t (Some m) None [] [] [] [] []"
  "set_doubleValue x (set_type t Value_default) = Value t None (Some x) [] [] [] [] []"
  "set_stringValue y (set_type t Value_default) = Value t None None y [] [] [] []"
  "set_byteArrayValue z (set_type t Value_default) = Value t None None [] z [] [] []"
  "set_type t Value_default = Value t None None [] [] [] [] []"
  by (simp_all add: Value_default_def)

lemma dec_scalar_wire_scalar:
  assumes "t \<noteq> OBJECT" "t \<noteq> ARRAY" "t \<noteq> DICTIONARY"
    and "representable_scalar narrow widen t i d s b"
  shows "\<exists>payload. wire_scalar narrow t i d s b = Inr (type_byte t # payload) \<and>
           (\<forall>this rest. \<exists>this'.
              dec_scalar widen t this (payload @ rest) = Inr (this', rest) \<and>
              active this' = active (Value t i d s b ob ar di) \<and>
              (this = Value_default \<longrightarrow> this' = active (Value t i d s b ob ar di)))"
  using assms
  by (cases t)
    (auto simp: wire_scalar_def dec_scalar_def representable_scalar_def is_int_def
      narrow_back8 narrow_back16 narrow_back32
      unat_length16 unat_length32 active_scalar_update scalar_update_default
      split: option.splits)

subsection \<open>Decoding what was encoded\<close>

lemma active_container_update:
  "active (set_arrayValue vs (set_type ARRAY this)) =
     Value ARRAY None None [] [] [] (active_array vs) []"
  "active (set_objectValue ob (set_type OBJECT this)) =
     Value OBJECT None None [] [] (active_object ob) [] []"
  "active (set_dictionaryValue di (set_type DICTIONARY this)) =
     Value DICTIONARY None None [] [] [] [] (active_dictionary di)"
  by (cases this; simp add: is_int_def)+

lemma container_update_default:
  "set_arrayValue vs (set_type ARRAY Value_default) = Value ARRAY None None [] [] [] vs []"
  "set_objectValue ob (set_type OBJECT Value_default) = Value OBJECT None None [] [] ob [] []"
  "set_dictionaryValue di (set_type DICTIONARY Value_default) =
     Value DICTIONARY None None [] [] [] [] di"
  by (simp_all add: Value_default_def)

lemma dec_container_step:
  "dec widen (Suc n) this (type_byte ARRAY # put32 c @ bs) =
     (case repeat_parse (unat c) (dec widen n Value_default) bs of
        Inl e \<Rightarrow> Inl e
      | Inr (vs, r) \<Rightarrow> Inr (set_arrayValue vs (set_type ARRAY this), r))"
  "dec widen (Suc n) this (type_byte OBJECT # put32 c @ bs) =
     (case repeat_parse (unat c) (object_entry (dec widen n Value_default)) bs of
        Inl e \<Rightarrow> Inl e
      | Inr (es, r) \<Rightarrow> Inr (set_objectValue (store_entries es) (set_type OBJECT this), r))"
  "dec widen (Suc n) this (type_byte DICTIONARY # put32 c @ bs) =
     (case repeat_parse (unat c) (dictionary_entry (dec widen n Value_default)) bs of
        Inl e \<Rightarrow> Inl e
      | Inr (es, r) \<Rightarrow>
          Inr (set_dictionaryValue (store_entries es) (set_type DICTIONARY this), r))"
  by (simp_all del: type_byte.simps)

lemma dec_scalar_step:
  "t \<noteq> OBJECT \<Longrightarrow> t \<noteq> ARRAY \<Longrightarrow> t \<noteq> DICTIONARY \<Longrightarrow>
   dec widen (Suc n) this (type_byte t # bs) = dec_scalar widen t this bs"
  by (simp del: type_byte.simps)

lemma roundtrip_nodes:
  fixes widen :: "32 word \<Rightarrow> 64 word"
  shows
    "representable narrow widen v \<Longrightarrow>
       \<exists>bs. wire narrow v = Inr bs \<and>
         (\<forall>n this rest. length bs \<le> n \<longrightarrow>
            (\<exists>this'. dec widen n this (bs @ rest) = Inr (this', rest) \<and>
               active this' = active v \<and> (this = Value_default \<longrightarrow> this' = active v)))"
    and "representable_array narrow widen vs \<Longrightarrow>
       \<exists>bs. wire_array narrow vs = Inr bs \<and>
         (\<forall>n rest. length bs \<le> n \<longrightarrow>
            repeat_parse (length vs) (dec widen n Value_default) (bs @ rest) =
              Inr (active_array vs, rest))"
    and "representable_object narrow widen ob \<Longrightarrow>
       \<exists>bs. wire_object narrow ob = Inr bs \<and>
         (\<forall>n rest. length bs \<le> n \<longrightarrow>
            repeat_parse (length ob) (object_entry (dec widen n Value_default)) (bs @ rest) =
              Inr (active_object ob, rest))"
    and "representable_dictionary narrow widen di \<Longrightarrow>
       \<exists>bs. wire_dictionary narrow di = Inr bs \<and>
         (\<forall>n rest. length bs \<le> n \<longrightarrow>
            repeat_parse (length di) (dictionary_entry (dec widen n Value_default)) (bs @ rest) =
              Inr (active_dictionary di, rest))"
proof (induction narrow v and narrow vs and narrow ob and narrow di
    rule: wire_wire_array_wire_object_wire_dictionary.induct)
  case (1 narrow t i d s b ob ar di)
  let ?v = "Value t i d s b ob ar di"
  consider (obj) "t = OBJECT" | (arr) "t = ARRAY" | (dict) "t = DICTIONARY"
    | (scalar) "t \<noteq> OBJECT" "t \<noteq> ARRAY" "t \<noteq> DICTIONARY"
    by blast
  then show ?case
  proof cases
    case obj
    from "1.prems" obj have len: "length ob < 2 ^ 32" and inv: "map_inv ob"
      and rep: "representable_object narrow widen ob"
      by simp_all
    from "1.IH"(1) [OF obj rep] obtain bso where
      w: "wire_object narrow ob = Inr bso" and
      r: "\<And>n rest. length bso \<le> n \<Longrightarrow>
            repeat_parse (length ob) (object_entry (dec widen n Value_default)) (bso @ rest) =
              Inr (active_object ob, rest)"
      by blast
    have st: "store_entries (active_object ob) = active_object ob"
      using inv by (intro store_entries_map) (simp add: map_inv_def active_object_keys)
    let ?bs = "type_byte OBJECT # put32 (of_nat (length ob)) @ bso"
    have "wire narrow ?v = Inr ?bs"
      using obj w by simp
    moreover have "\<exists>this'. dec widen n this (?bs @ rest) = Inr (this', rest) \<and>
        active this' = active ?v \<and> (this = Value_default \<longrightarrow> this' = active ?v)"
      if "length ?bs \<le> n" for n this rest
    proof -
      from that obtain n' where n: "n = Suc n'" and n': "length bso \<le> n'"
        by (cases n) auto
      have "dec widen n this (?bs @ rest) =
          Inr (set_objectValue (active_object ob) (set_type OBJECT this), rest)"
        unfolding n using r [OF n', of rest] len
        by (simp add: dec_container_step unat_length32 st del: dec.simps type_byte.simps)
      then show ?thesis
        using obj
        by (auto simp: active_container_update container_update_default active_idem is_int_def)
    qed
    ultimately show ?thesis by blast
  next
    case arr
    from "1.prems" arr have len: "length ar < 2 ^ 32"
      and rep: "representable_array narrow widen ar"
      by simp_all
    from arr have "t \<noteq> OBJECT" by simp
    from "1.IH"(2) [OF this arr rep] obtain bsa where
      w: "wire_array narrow ar = Inr bsa" and
      r: "\<And>n rest. length bsa \<le> n \<Longrightarrow>
            repeat_parse (length ar) (dec widen n Value_default) (bsa @ rest) =
              Inr (active_array ar, rest)"
      by blast
    let ?bs = "type_byte ARRAY # put32 (of_nat (length ar)) @ bsa"
    have "wire narrow ?v = Inr ?bs"
      using arr w by simp
    moreover have "\<exists>this'. dec widen n this (?bs @ rest) = Inr (this', rest) \<and>
        active this' = active ?v \<and> (this = Value_default \<longrightarrow> this' = active ?v)"
      if "length ?bs \<le> n" for n this rest
    proof -
      from that obtain n' where n: "n = Suc n'" and n': "length bsa \<le> n'"
        by (cases n) auto
      have "dec widen n this (?bs @ rest) =
          Inr (set_arrayValue (active_array ar) (set_type ARRAY this), rest)"
        unfolding n using r [OF n', of rest] len
        by (simp add: dec_container_step unat_length32 del: dec.simps type_byte.simps)
      then show ?thesis
        using arr
        by (auto simp: active_container_update container_update_default active_idem is_int_def)
    qed
    ultimately show ?thesis by blast
  next
    case dict
    from "1.prems" dict have len: "length di < 2 ^ 32" and inv: "map_inv di"
      and rep: "representable_dictionary narrow widen di"
      by simp_all
    from dict have "t \<noteq> OBJECT" "t \<noteq> ARRAY" by simp_all
    from "1.IH"(3) [OF this dict rep] obtain bsd where
      w: "wire_dictionary narrow di = Inr bsd" and
      r: "\<And>n rest. length bsd \<le> n \<Longrightarrow>
            repeat_parse (length di) (dictionary_entry (dec widen n Value_default)) (bsd @ rest) =
              Inr (active_dictionary di, rest)"
      by blast
    have st: "store_entries (active_dictionary di) = active_dictionary di"
      using inv by (intro store_entries_map) (simp add: map_inv_def active_dictionary_keys)
    let ?bs = "type_byte DICTIONARY # put32 (of_nat (length di)) @ bsd"
    have "wire narrow ?v = Inr ?bs"
      using dict w by simp
    moreover have "\<exists>this'. dec widen n this (?bs @ rest) = Inr (this', rest) \<and>
        active this' = active ?v \<and> (this = Value_default \<longrightarrow> this' = active ?v)"
      if "length ?bs \<le> n" for n this rest
    proof -
      from that obtain n' where n: "n = Suc n'" and n': "length bsd \<le> n'"
        by (cases n) auto
      have "dec widen n this (?bs @ rest) =
          Inr (set_dictionaryValue (active_dictionary di) (set_type DICTIONARY this), rest)"
        unfolding n using r [OF n', of rest] len
        by (simp add: dec_container_step unat_length32 st del: dec.simps type_byte.simps)
      then show ?thesis
        using dict
        by (auto simp: active_container_update container_update_default active_idem is_int_def)
    qed
    ultimately show ?thesis by blast
  next
    case scalar
    from "1.prems" scalar have rep: "representable_scalar narrow widen t i d s b"
      by simp
    from dec_scalar_wire_scalar [OF scalar rep, of ob ar di] obtain payload where
      w: "wire_scalar narrow t i d s b = Inr (type_byte t # payload)" and
      r: "\<And>this rest. \<exists>this'. dec_scalar widen t this (payload @ rest) = Inr (this', rest) \<and>
            active this' = active ?v \<and> (this = Value_default \<longrightarrow> this' = active ?v)"
      by blast
    let ?bs = "type_byte t # payload"
    have "wire narrow ?v = Inr ?bs"
      using scalar w by simp
    moreover have "\<exists>this'. dec widen n this (?bs @ rest) = Inr (this', rest) \<and>
        active this' = active ?v \<and> (this = Value_default \<longrightarrow> this' = active ?v)"
      if "length ?bs \<le> n" for n this rest
    proof -
      from that obtain n' where n: "n = Suc n'"
        by (cases n) auto
      have "dec widen n this (?bs @ rest) = dec_scalar widen t this (payload @ rest)"
        unfolding n using dec_scalar_step [OF scalar] by simp
      then show ?thesis
        using r [of this rest] by simp
    qed
    ultimately show ?thesis by blast
  qed
next
  case (2 narrow)
  then show ?case by simp
next
  case (3 narrow v vs)
  from "3.prems" have rv: "representable narrow widen v"
    and rvs: "representable_array narrow widen vs"
    by simp_all
  from "3.IH"(1) [OF rv] obtain bv where
    wv: "wire narrow v = Inr bv" and
    dv: "\<And>n rest. length bv \<le> n \<Longrightarrow>
           dec widen n Value_default (bv @ rest) = Inr (active v, rest)"
    by blast
  from "3.IH"(2) [OF rvs] obtain bvs where
    wvs: "wire_array narrow vs = Inr bvs" and
    dvs: "\<And>n rest. length bvs \<le> n \<Longrightarrow>
           repeat_parse (length vs) (dec widen n Value_default) (bvs @ rest) =
             Inr (active_array vs, rest)"
    by blast
  have "wire_array narrow (v # vs) = Inr (bv @ bvs)"
    using wv wvs by simp
  moreover have "repeat_parse (length (v # vs)) (dec widen n Value_default) ((bv @ bvs) @ rest) =
      Inr (active_array (v # vs), rest)"
    if "length (bv @ bvs) \<le> n" for n rest
    using that dv [of n "bvs @ rest"] dvs [of n rest] by simp
  ultimately show ?case by blast
next
  case (4 narrow)
  then show ?case by simp
next
  case (5 narrow k v es)
  from "5.prems" have rv: "representable narrow widen v"
    and res: "representable_object narrow widen es"
    by simp_all
  from "5.IH"(1) [OF rv] obtain bv where
    wv: "wire narrow v = Inr bv" and
    dv: "\<And>n rest. length bv \<le> n \<Longrightarrow>
           dec widen n Value_default (bv @ rest) = Inr (active v, rest)"
    by blast
  from "5.IH"(2) [OF res] obtain bes where
    wes: "wire_object narrow es = Inr bes" and
    des: "\<And>n rest. length bes \<le> n \<Longrightarrow>
           repeat_parse (length es) (object_entry (dec widen n Value_default)) (bes @ rest) =
             Inr (active_object es, rest)"
    by blast
  have "wire_object narrow ((k, v) # es) = Inr ((put32 k @ bv) @ bes)"
    using wv wes by simp
  moreover have "repeat_parse (length ((k, v) # es)) (object_entry (dec widen n Value_default))
        (((put32 k @ bv) @ bes) @ rest) =
      Inr (active_object ((k, v) # es), rest)"
    if "length ((put32 k @ bv) @ bes) \<le> n" for n rest
    using that dv [of n "bes @ rest"] des [of n rest] by (simp add: object_entry_def)
  ultimately show ?case by blast
next
  case (6 narrow)
  then show ?case by simp
next
  case (7 narrow k v es)
  from "7.prems" have lk: "length k \<le> 65535" and rv: "representable narrow widen v"
    and res: "representable_dictionary narrow widen es"
    by simp_all
  from "7.IH"(1) [OF rv] obtain bv where
    wv: "wire narrow v = Inr bv" and
    dv: "\<And>n rest. length bv \<le> n \<Longrightarrow>
           dec widen n Value_default (bv @ rest) = Inr (active v, rest)"
    by blast
  from "7.IH"(2) [OF res] obtain bes where
    wes: "wire_dictionary narrow es = Inr bes" and
    des: "\<And>n rest. length bes \<le> n \<Longrightarrow>
           repeat_parse (length es) (dictionary_entry (dec widen n Value_default)) (bes @ rest) =
             Inr (active_dictionary es, rest)"
    by blast
  let ?key = "put16 (of_nat (length k)) @ map byte_of_char k"
  have "wire_dictionary narrow ((k, v) # es) = Inr ((?key @ bv) @ bes)"
    using wv wes by simp
  moreover have "repeat_parse (length ((k, v) # es))
        (dictionary_entry (dec widen n Value_default)) (((?key @ bv) @ bes) @ rest) =
      Inr (active_dictionary ((k, v) # es), rest)"
    if "length ((?key @ bv) @ bes) \<le> n" for n rest
    using that dv [of n "bes @ rest"] des [of n rest] lk
    by (simp add: dictionary_entry_def unat_length16)
  ultimately show ?case by blast
qed

lemma unat_up8: "unat (ucast (a :: 8 word) :: 64 word) = unat a"
  using unsigned_less [of a, where ?'a = nat]
  by (simp add: unsigned_ucast_eq take_bit_nat_eq_self)

lemma constructed_integers:
  "representable narrow widen (Value_u8 a) \<and> active (Value_u8 a) = Value_u8 a"
  "representable narrow widen (Value_u16 b) \<and> active (Value_u16 b) = Value_u16 b"
  "representable narrow widen (Value_u32 c) \<and> active (Value_u32 c) = Value_u32 c"
  "representable narrow widen (Value_u64 d) \<and> active (Value_u64 d) = Value_u64 d"
proof -
  show "representable narrow widen (Value_u8 a) \<and> active (Value_u8 a) = Value_u8 a"
    using u8_bound [of a]
    by (simp add: Value_u8_def representable_scalar_def is_int_def word_le_nat_alt unat_up8)
  show "representable narrow widen (Value_u16 b) \<and> active (Value_u16 b) = Value_u16 b"
    using u16_bound [of b]
    by (simp add: Value_u16_def Let_def representable_scalar_def is_int_def
        word_le_nat_alt word_less_nat_alt unat_up16)
  show "representable narrow widen (Value_u32 c) \<and> active (Value_u32 c) = Value_u32 c"
    using u32_bound [of c]
    by (simp add: Value_u32_def Let_def representable_scalar_def is_int_def
        word_le_nat_alt word_less_nat_alt unat_up32)
  show "representable narrow widen (Value_u64 d) \<and> active (Value_u64 d) = Value_u64 d"
    by (simp add: Value_u64_def Let_def representable_scalar_def is_int_def
        word_le_nat_alt word_less_nat_alt)
qed

lemma constructed_scalars:
  "representable narrow widen Value_default \<and> active Value_default = Value_default"
  "representable narrow widen (Value_double x) \<and> active (Value_double x) = Value_double x"
  "(narrow (widen f) = f \<longrightarrow> representable narrow widen (Value_float widen f)) \<and>
   active (Value_float widen f) = Value_float widen f"
  "(length s < 2 ^ 32 \<longrightarrow> representable narrow widen (Value_string s)) \<and>
   active (Value_string s) = Value_string s"
  "(length bytes < 2 ^ 32 \<longrightarrow> representable narrow widen (Value_bytes bytes)) \<and>
   active (Value_bytes bytes) = Value_bytes bytes"
  by (simp_all add: Value_default_def Value_double_def Value_float_def Value_string_def
      Value_bytes_def representable_scalar_def is_int_def)

lemma constructed_containers:
  "(length ar < 2 ^ 32 \<and> representable_array narrow widen ar \<longrightarrow>
      representable narrow widen (Value_vector ar)) \<and>
   (active_array ar = ar \<longrightarrow> active (Value_vector ar) = Value_vector ar)"
  "(length ob < 2 ^ 32 \<and> map_inv ob \<and> representable_object narrow widen ob \<longrightarrow>
      representable narrow widen (Value_map ob)) \<and>
   (active_object ob = ob \<longrightarrow> active (Value_map ob) = Value_map ob)"
  "representable narrow widen (Value_Type OBJECT) \<and>
   active (Value_Type OBJECT) = Value_Type OBJECT"
  "representable narrow widen (Value_Type ARRAY) \<and>
   active (Value_Type ARRAY) = Value_Type ARRAY"
  "representable narrow widen (Value_Type DICTIONARY) \<and>
   active (Value_Type DICTIONARY) = Value_Type DICTIONARY"
  by (simp_all add: Value_vector_def Value_map_def Value_Type_def is_int_def map_inv_def)

text \<open>
  C1. For every representable node \<open>v\<close>, encode succeeds, and decoding the bytes that it
  appended, at the offset where they start and into any receiver, succeeds, consumes
  as many bytes as encode wrote and leaves the receiver with the tag of \<open>v\<close> and the
  payload of \<open>v\<close>, and so for every descendant (\<open>active\<close>). Decoding into a
  default-constructed node, as a caller that has no node yet does, gives \<open>active v\<close>,
  which is \<open>v\<close> itself when \<open>v\<close> holds nothing beside the payload of its tag.

  Representable (\<open>representable\<close>) is what the data model of the specification allows
  a node to hold and the wire format has room for: an integer whose magnitude fits the
  width of its tag, a FLOAT that is a 32-bit float stored widened, a STRING of at most
  65535 bytes, a LONG_STRING or BYTE_ARRAY whose length fits 32 bits, a container whose
  count fits 32 bits, a DICTIONARY key whose length fits its 2-byte prefix, and so for
  every descendant. The nodes that the constructors build are of this kind and hold
  nothing beside the payload of their tag: the default node, the four integer
  constructors and the double constructor always; the float constructor when the
  machine narrows a widened float back to itself; the string and byte-array
  constructors when the length fits 32 bits; the array and map constructors when the
  count fits 32 bits and the children are so; the containers constructed from a tag.
\<close>

theorem round_trip:
  "(representable narrow widen v \<and> unat offset = length buffer \<longrightarrow>
      (\<exists>n buffer' this'.
         encode narrow v buffer = Inr (n, buffer') \<and>
         decode widen this buffer' offset = Inr (n, this') \<and>
         active this' = active v \<and>
         (this = Value_default \<longrightarrow> this' = active v) \<and>
         (this = Value_default \<and> active v = v \<longrightarrow> this' = v))) \<and>
   (representable narrow widen Value_default \<and> active Value_default = Value_default) \<and>
   (representable narrow widen (Value_u8 a) \<and> active (Value_u8 a) = Value_u8 a) \<and>
   (representable narrow widen (Value_u16 b) \<and> active (Value_u16 b) = Value_u16 b) \<and>
   (representable narrow widen (Value_u32 c) \<and> active (Value_u32 c) = Value_u32 c) \<and>
   (representable narrow widen (Value_u64 d) \<and> active (Value_u64 d) = Value_u64 d) \<and>
   (representable narrow widen (Value_double x) \<and> active (Value_double x) = Value_double x) \<and>
   ((narrow (widen f) = f \<longrightarrow> representable narrow widen (Value_float widen f)) \<and>
    active (Value_float widen f) = Value_float widen f) \<and>
   ((length s < 2 ^ 32 \<longrightarrow> representable narrow widen (Value_string s)) \<and>
    active (Value_string s) = Value_string s) \<and>
   ((length bytes < 2 ^ 32 \<longrightarrow> representable narrow widen (Value_bytes bytes)) \<and>
    active (Value_bytes bytes) = Value_bytes bytes) \<and>
   ((length ar < 2 ^ 32 \<and> representable_array narrow widen ar \<longrightarrow>
       representable narrow widen (Value_vector ar)) \<and>
    (active_array ar = ar \<longrightarrow> active (Value_vector ar) = Value_vector ar)) \<and>
   ((length ob < 2 ^ 32 \<and> map_inv ob \<and> representable_object narrow widen ob \<longrightarrow>
       representable narrow widen (Value_map ob)) \<and>
    (active_object ob = ob \<longrightarrow> active (Value_map ob) = Value_map ob)) \<and>
   (representable narrow widen (Value_Type OBJECT) \<and>
    active (Value_Type OBJECT) = Value_Type OBJECT) \<and>
   (representable narrow widen (Value_Type ARRAY) \<and>
    active (Value_Type ARRAY) = Value_Type ARRAY) \<and>
   (representable narrow widen (Value_Type DICTIONARY) \<and>
    active (Value_Type DICTIONARY) = Value_Type DICTIONARY)"
proof -
  have "\<exists>n buffer' this'.
         encode narrow v buffer = Inr (n, buffer') \<and>
         decode widen this buffer' offset = Inr (n, this') \<and>
         active this' = active v \<and>
         (this = Value_default \<longrightarrow> this' = active v) \<and>
         (this = Value_default \<and> active v = v \<longrightarrow> this' = v)"
    if rep: "representable narrow widen v" and off: "unat offset = length buffer"
  proof -
    from roundtrip_nodes(1) [OF rep] obtain bs where
      w: "wire narrow v = Inr bs" and
      d: "\<And>n this rest. length bs \<le> n \<Longrightarrow>
            \<exists>this'. dec widen n this (bs @ rest) = Inr (this', rest) \<and>
              active this' = active v \<and> (this = Value_default \<longrightarrow> this' = active v)"
      by blast
    from d [of "length bs" this "[]"] obtain this' where
      d': "dec widen (length bs) this bs = Inr (this', [])" and
      a: "active this' = active v" "this = Value_default \<longrightarrow> this' = active v"
      by auto
    have "encode narrow v buffer = Inr (of_nat (length bs), buffer @ bs)"
      using w by (simp add: encode_def)
    moreover have "decode widen this (buffer @ bs) offset = Inr (of_nat (length bs), this')"
      using d' off by (simp add: decode_def)
    ultimately show ?thesis using a by auto
  qed
  then show ?thesis
    using constructed_integers [where narrow = narrow and widen = widen]
      constructed_scalars [where narrow = narrow and widen = widen]
      constructed_containers [where narrow = narrow and widen = widen]
    by blast
qed

theorem round_trip_witness:
  "representable ucast ucast (Value_vector [Value_string ''hi'', Value_u8 5]) \<and>
   unat (0 :: 32 word) = length ([] :: byte list) \<and>
   active (Value_vector [Value_string ''hi'', Value_u8 5]) =
     Value_vector [Value_string ''hi'', Value_u8 5] \<and>
   encode ucast (Value_vector [Value_string ''hi'', Value_u8 5]) [] =
     Inr (12, [11, 0, 0, 0, 2, 7, 0, 2, 104, 105, 1, 5]) \<and>
   decode ucast Value_default [11, 0, 0, 0, 2, 7, 0, 2, 104, 105, 1, 5] 0 =
     Inr (12, Value_vector [Value_string ''hi'', Value_u8 5]) \<and>
   representable ucast ucast (Value_u32 300) \<and>
   active (Value_u32 300) = Value_u32 300 \<and>
   type (Value_u32 300) = INT16 \<and>
   encode ucast (Value_u32 300) [] = Inr (3, [2, 1, 44]) \<and>
   decode ucast Value_default [2, 1, 44] 0 = Inr (3, Value_u32 300) \<and>
   (ucast (ucast (7 :: 32 word) :: 64 word) :: 32 word) = 7 \<and>
   representable ucast ucast (Value_float ucast 7)"
proof -
  let ?v = "Value_vector [Value_string ''hi'', Value_u8 5]"
  have r: "representable ucast ucast ?v"
    by (simp add: Value_vector_def Value_string_def Value_u8_def representable_scalar_def)
  have o: "unat (0 :: 32 word) = length ([] :: byte list)"
    by simp
  have e: "encode ucast ?v [] = Inr (12, [11, 0, 0, 0, 2, 7, 0, 2, 104, 105, 1, 5])"
    by (simp add: encode_def Value_vector_def Value_string_def Value_u8_def wire_scalar_def
        put16_def put32_def byte_of_char_def)
  have a: "active ?v = ?v"
    by (simp add: Value_vector_def Value_string_def Value_u8_def is_int_def)
  from round_trip [where narrow = ucast and widen = ucast and v = ?v and offset = 0
      and buffer = "[]" and this = Value_default] r o e a
  have d: "decode ucast Value_default [11, 0, 0, 0, 2, 7, 0, 2, 104, 105, 1, 5] 0 =
      Inr (12, ?v)"
    by auto
  have e': "encode ucast (Value_u32 300) [] = Inr (3, [2, 1, 44])"
    by (simp add: encode_def Value_u32_def wire_scalar_def put16_def)
  have t: "type (Value_u32 300) = INT16"
    by (simp add: Value_u32_def)
  from round_trip [where narrow = ucast and widen = ucast and v = "Value_u32 300"
      and offset = 0 and buffer = "[]" and this = Value_default and c = 300] o e'
  have d': "representable ucast ucast (Value_u32 300) \<and>
      active (Value_u32 300) = Value_u32 300 \<and>
      decode ucast Value_default [2, 1, 44] 0 = Inr (3, Value_u32 300)"
    by auto
  have u: "(ucast (ucast (7 :: 32 word) :: 64 word) :: 32 word) = 7"
    by simp
  from round_trip [where narrow = ucast and widen = ucast and f = 7] u
  have fl: "representable ucast ucast (Value_float ucast 7)"
    by blast
  from r o a e d e' t d' u fl show ?thesis by blast
qed

subsection \<open>Malformed buffers\<close>

lemma get8_length: "get8 bs = Some (w, r) \<Longrightarrow> length bs = length r + 1"
  by (cases bs rule: get8.cases) auto

lemma get16_length: "get16 bs = Some (w, r) \<Longrightarrow> length bs = length r + 2"
  by (cases bs rule: get16.cases) auto

lemma get32_length: "get32 bs = Some (w, r) \<Longrightarrow> length bs = length r + 4"
  by (cases bs rule: get32.cases) auto

lemma get64_length: "get64 bs = Some (w, r) \<Longrightarrow> length bs = length r + 8"
  by (cases bs rule: get64.cases) auto

lemma get_bytes_length: "get_bytes n bs = Some (x, r) \<Longrightarrow> length bs = n + length r"
  by (auto simp: get_bytes_def split: if_splits)

lemma get_bytes_short: "length bs < n \<Longrightarrow> get_bytes n bs = None"
  by (simp add: get_bytes_def)

lemma dec_scalar_length:
  "dec_scalar widen t this bs = Inr (v, r) \<Longrightarrow> length r \<le> length bs"
  by (cases t)
    (auto simp: dec_scalar_def split: option.splits
      dest!: get8_length get16_length get32_length get64_length get_bytes_length)

lemma repeat_parse_length:
  assumes "\<And>bs x r. p bs = Inr (x, r) \<Longrightarrow> length r < length bs"
  shows "repeat_parse c p bs = Inr (xs, r) \<Longrightarrow> c + length r \<le> length bs"
proof (induction c arbitrary: bs xs)
  case 0
  then show ?case by simp
next
  case (Suc c)
  from Suc.prems obtain x r1 xs' where
    p: "p bs = Inr (x, r1)" and rest: "repeat_parse c p r1 = Inr (xs', r)"
    by (auto split: sum.splits)
  from assms [OF p] Suc.IH [OF rest] show ?case by simp
qed

lemma object_entry_length:
  assumes "\<And>bs x r. p bs = Inr (x, r) \<Longrightarrow> length r < length bs"
  shows "object_entry p bs = Inr (x, r) \<Longrightarrow> length r < length bs"
  by (auto simp: object_entry_def split: option.splits sum.splits
      dest!: get32_length assms)

lemma dictionary_entry_length:
  assumes "\<And>bs x r. p bs = Inr (x, r) \<Longrightarrow> length r < length bs"
  shows "dictionary_entry p bs = Inr (x, r) \<Longrightarrow> length r < length bs"
  by (auto simp: dictionary_entry_def split: option.splits sum.splits
      dest!: get16_length get_bytes_length assms)

lemma dec_length: "dec widen n this bs = Inr (v, r) \<Longrightarrow> length r < length bs"
proof (induction n arbitrary: this bs v r)
  case 0
  then show ?case by simp
next
  case (Suc n)
  have child: "\<And>bs x r. dec widen n Value_default bs = Inr (x, r) \<Longrightarrow> length r < length bs"
    by (rule Suc.IH)
  from Suc.prems obtain tag rest t where bs: "bs = tag # rest" and t: "byte_type tag = Some t"
    by (auto split: list.splits option.splits)
  consider (obj) "t = OBJECT" | (arr) "t = ARRAY" | (dict) "t = DICTIONARY"
    | (scalar) "t \<noteq> OBJECT" "t \<noteq> ARRAY" "t \<noteq> DICTIONARY"
    by blast
  then have "length r \<le> length rest"
  proof cases
    case obj
    with Suc.prems bs t obtain count r' es where
      "get32 rest = Some (count, r')"
      "repeat_parse (unat count) (object_entry (dec widen n Value_default)) r' = Inr (es, r)"
      by (auto split: option.splits sum.splits)
    then show ?thesis
      using repeat_parse_length [of "object_entry (dec widen n Value_default)", OF object_entry_length [OF child]]
      by (fastforce dest: get32_length)
  next
    case arr
    with Suc.prems bs t obtain count r' vs where
      "get32 rest = Some (count, r')"
      "repeat_parse (unat count) (dec widen n Value_default) r' = Inr (vs, r)"
      by (auto split: option.splits sum.splits)
    then show ?thesis
      using repeat_parse_length [of "dec widen n Value_default", OF child]
      by (fastforce dest: get32_length)
  next
    case dict
    with Suc.prems bs t obtain count r' es where
      "get32 rest = Some (count, r')"
      "repeat_parse (unat count) (dictionary_entry (dec widen n Value_default)) r' = Inr (es, r)"
      by (auto split: option.splits sum.splits)
    then show ?thesis
      using repeat_parse_length [of "dictionary_entry (dec widen n Value_default)", OF dictionary_entry_length [OF child]]
      by (fastforce dest: get32_length)
  next
    case scalar
    with Suc.prems bs t have "dec_scalar widen t this rest = Inr (v, r)"
      by simp
    then show ?thesis by (rule dec_scalar_length)
  qed
  then show ?case by (simp add: bs)
qed

lemma byte_type_None: "byte_type tag = None \<longleftrightarrow> 12 < unat tag"
proof -
  have "tag = w \<longleftrightarrow> unat tag = unat w" for w :: byte
    by (simp add: word_unat_eq_iff)
  then show ?thesis
    by (simp add: byte_type_def) arith
qed

lemma decode_at:
  "drop (unat offset) buffer = tag # rest \<Longrightarrow>
   decode widen this buffer offset =
     (case dec widen (Suc (length rest)) this (tag # rest) of
        Inl e \<Rightarrow> Inl e
      | Inr (this', r) \<Rightarrow> Inr (of_nat (length (tag # rest) - length r), this'))"
  by (simp add: decode_def Let_def del: dec.simps)

lemma repeat_parse_short:
  assumes "\<And>bs x r. p bs = Inr (x, r) \<Longrightarrow> length r < length bs"
    and "length bs < c"
  shows "\<exists>e. repeat_parse c p bs = Inl e"
proof (cases "repeat_parse c p bs")
  case (Inl e)
  then show ?thesis by blast
next
  case (Inr res)
  obtain xs r where "res = (xs, r)" by (cases res)
  with Inr repeat_parse_length [of p c bs xs r] assms show ?thesis by fastforce
qed

subsection \<open>The nesting bound\<close>

text \<open>
  The bound that \<open>dec\<close> counts down never cuts a decoding short: once it covers the
  unread bytes, a larger bound gives the same result.
\<close>

lemma repeat_parse_agree:
  assumes "\<forall>bs'. length bs' \<le> length bs \<longrightarrow> p bs' = q bs'"
    and "\<forall>bs' x r. p bs' = Inr (x, r) \<longrightarrow> length r < length bs'"
  shows "repeat_parse c p bs = repeat_parse c q bs"
  using assms(1)
proof (induction c arbitrary: bs)
  case 0
  then show ?case by simp
next
  case (Suc c)
  have pq: "p bs = q bs" using Suc.prems by simp
  show ?case
  proof (cases "p bs")
    case (Inl e)
    with pq have "q bs = Inl e" by simp
    with Inl show ?thesis by simp
  next
    case (Inr res)
    obtain x r where res: "res = (x, r)" by (cases res)
    with Inr assms(2) have "length r < length bs" by blast
    with Suc.prems have "\<forall>bs'. length bs' \<le> length r \<longrightarrow> p bs' = q bs'" by simp
    from Suc.IH [OF this] have "repeat_parse c p r = repeat_parse c q r" .
    moreover from Inr res have "p bs = Inr (x, r)" by simp
    moreover from this pq have "q bs = Inr (x, r)" by simp
    ultimately show ?thesis by simp
  qed
qed

lemma object_entry_agree:
  assumes "\<forall>bs'. length bs' \<le> length bs \<longrightarrow> p bs' = q bs'"
  shows "object_entry p bs = object_entry q bs"
  using assms
  by (auto simp: object_entry_def split: option.splits dest!: get32_length)

lemma dictionary_entry_agree:
  assumes "\<forall>bs'. length bs' \<le> length bs \<longrightarrow> p bs' = q bs'"
  shows "dictionary_entry p bs = dictionary_entry q bs"
  using assms
  by (auto simp: dictionary_entry_def split: option.splits
      dest!: get16_length get_bytes_length)

lemma dec_bound_step: "length bs \<le> n \<Longrightarrow> dec widen (Suc n) this bs = dec widen n this bs"
proof (induction n arbitrary: this bs)
  case 0
  then show ?case by simp
next
  case (Suc n)
  let ?p = "dec widen (Suc n) Value_default" and ?q = "dec widen n Value_default"
  have pq: "\<forall>bs'. length bs' \<le> n \<longrightarrow> ?p bs' = ?q bs'"
    using Suc.IH by blast
  have cp: "\<forall>bs' x r. ?p bs' = Inr (x, r) \<longrightarrow> length r < length bs'"
    using dec_length by blast
  have cpo: "\<forall>bs' x r. object_entry ?p bs' = Inr (x, r) \<longrightarrow> length r < length bs'"
    using object_entry_length [where p = ?p] cp by blast
  have cpd: "\<forall>bs' x r. dictionary_entry ?p bs' = Inr (x, r) \<longrightarrow> length r < length bs'"
    using dictionary_entry_length [where p = ?p] cp by blast
  show ?case
  proof (cases bs)
    case Nil
    then show ?thesis by simp
  next
    case (Cons tag rest)
    with Suc.prems have rest: "length rest \<le> n" by simp
    have arr: "repeat_parse c ?p r = repeat_parse c ?q r" if "length r \<le> n" for c r
      using that pq cp by (intro repeat_parse_agree) auto
    have obj: "repeat_parse c (object_entry ?p) r = repeat_parse c (object_entry ?q) r"
      if "length r \<le> n" for c r
      using that pq cpo by (intro repeat_parse_agree allI impI object_entry_agree) auto
    have dict: "repeat_parse c (dictionary_entry ?p) r = repeat_parse c (dictionary_entry ?q) r"
      if "length r \<le> n" for c r
      using that pq cpd by (intro repeat_parse_agree allI impI dictionary_entry_agree) auto
    have sub: "length r \<le> n" if "get32 rest = Some (c, r)" for c r
      using that rest by (auto dest: get32_length)
    show ?thesis
      unfolding Cons
      by (simp add: arr obj dict sub split: option.splits)
  qed
qed

lemma dec_bound_irrelevant:
  "length bs \<le> n \<Longrightarrow> dec widen n this bs = dec widen (length bs) this bs"
proof (induction "n - length bs" arbitrary: n)
  case 0
  then show ?case by simp
next
  case (Suc k)
  then obtain m where n: "n = Suc m" and m: "length bs \<le> m" "k = m - length bs"
    by (cases n) auto
  from dec_bound_step [OF m(1)] Suc.hyps(1) [OF m(2) m(1)] show ?case
    by (simp add: n del: dec.simps)
qed

subsection \<open>Complete nodes\<close>

lemma put16_get16: "get16 bs = Some (w, r) \<Longrightarrow> bs = put16 w @ r"
proof (cases bs rule: get16.cases)
  case (1 a b r')
  assume g: "get16 bs = Some (w, r)"
  let ?w = "push_bit 8 (ucast a) OR ucast b :: 16 word"
  from g 1 have w: "w = ?w" and r: "r' = r" by simp_all
  have hi: "ucast (drop_bit 8 ?w) = a"
    by (rule bit_word_eqI) (auto simp add: bit_simps dest: bit_imp_le_length)
  have lo: "ucast ?w = b"
    by (rule bit_word_eqI) (auto simp add: bit_simps dest: bit_imp_le_length)
  have "put16 ?w = [a, b]"
    by (simp only: put16_def hi lo)
  then show ?thesis using 1 w r by simp
qed auto

lemma put32_get32: "get32 bs = Some (w, r) \<Longrightarrow> bs = put32 w @ r"
proof (cases bs rule: get32.cases)
  case (1 a b c d r')
  assume g: "get32 bs = Some (w, r)"
  let ?w = "push_bit 24 (ucast a) OR push_bit 16 (ucast b) OR push_bit 8 (ucast c) OR ucast d
              :: 32 word"
  from g 1 have w: "w = ?w" and r: "r' = r" by simp_all
  have b3: "ucast (drop_bit 24 ?w) = a"
    by (rule bit_word_eqI) (auto simp add: bit_simps dest: bit_imp_le_length)
  have b2: "ucast (drop_bit 16 ?w) = b"
    by (rule bit_word_eqI) (auto simp add: bit_simps dest: bit_imp_le_length)
  have b1: "ucast (drop_bit 8 ?w) = c"
    by (rule bit_word_eqI) (auto simp add: bit_simps dest: bit_imp_le_length)
  have b0: "ucast ?w = d"
    by (rule bit_word_eqI) (auto simp add: bit_simps dest: bit_imp_le_length)
  have "put32 ?w = [a, b, c, d]"
    by (simp only: put32_def b3 b2 b1 b0)
  then show ?thesis using 1 w r by simp
qed auto

lemma byte_type_Some: "byte_type tag = Some t \<Longrightarrow> tag = type_byte t"
  by (auto simp: byte_type_def split: if_splits)

lemma get8_split: "get8 bs = Some (w, r) \<Longrightarrow> \<exists>p. bs = p @ r \<and> length p = 1"
  by (cases bs rule: get8.cases) auto

lemma get16_split: "get16 bs = Some (w, r) \<Longrightarrow> \<exists>p. bs = p @ r \<and> length p = 2"
  by (cases bs rule: get16.cases) (auto intro: exI [of _ "[a, b]" for a b])

lemma get32_split: "get32 bs = Some (w, r) \<Longrightarrow> \<exists>p. bs = p @ r \<and> length p = 4"
  by (cases bs rule: get32.cases) (auto intro: exI [of _ "[a, b, c, d]" for a b c d])

lemma get64_split: "get64 bs = Some (w, r) \<Longrightarrow> \<exists>p. bs = p @ r \<and> length p = 8"
  by (cases bs rule: get64.cases)
    (auto intro: exI [of _ "[a, b, c, d, e, f, g, h]" for a b c d e f g h])

lemma get_bytes_split: "get_bytes n bs = Some (x, r) \<Longrightarrow> bs = x @ r \<and> length x = n"
  by (auto simp: get_bytes_def split: if_splits)

lemma dec_scalar_node:
  assumes "t \<noteq> OBJECT" "t \<noteq> ARRAY" "t \<noteq> DICTIONARY"
    and "dec_scalar widen t this bs = Inr (v, r)"
  shows "\<exists>p. bs = p @ r \<and> wire_node (type_byte t # p)"
proof (cases t)
  case NONE
  with assms(4) have "bs = [] @ r" by (simp add: dec_scalar_def)
  moreover have "wire_node (type_byte NONE # [])" by (rule wire_node_wire_nodes_wire_object_entries_wire_dictionary_entries.none)
  ultimately show ?thesis using NONE by blast
next
  case INT8
  with assms(4) obtain w where "get8 bs = Some (w, r)"
    by (auto simp: dec_scalar_def split: option.splits)
  from get8_split [OF this] show ?thesis using INT8 by (blast intro: int8)
next
  case INT16
  with assms(4) obtain w where "get16 bs = Some (w, r)"
    by (auto simp: dec_scalar_def split: option.splits)
  from get16_split [OF this] show ?thesis using INT16 by (blast intro: int16)
next
  case INT32
  with assms(4) obtain w where "get32 bs = Some (w, r)"
    by (auto simp: dec_scalar_def split: option.splits)
  from get32_split [OF this] show ?thesis using INT32 by (blast intro: int32)
next
  case INT64
  with assms(4) obtain w where "get64 bs = Some (w, r)"
    by (auto simp: dec_scalar_def split: option.splits)
  from get64_split [OF this] show ?thesis using INT64 by (blast intro: int64)
next
  case FLOAT
  with assms(4) obtain w where "get32 bs = Some (w, r)"
    by (auto simp: dec_scalar_def split: option.splits)
  from get32_split [OF this] show ?thesis using FLOAT by (blast intro: float)
next
  case DOUBLE
  with assms(4) obtain w where "get64 bs = Some (w, r)"
    by (auto simp: dec_scalar_def split: option.splits)
  from get64_split [OF this] show ?thesis using DOUBLE by (blast intro: double)
next
  case STRING
  with assms(4) obtain len r1 p where g: "get16 bs = Some (len, r1)"
    and b: "get_bytes (unat len) r1 = Some (p, r)"
    by (auto simp: dec_scalar_def split: option.splits)
  from put16_get16 [OF g] get_bytes_split [OF b]
  have "bs = (put16 len @ p) @ r" and "length p = unat len" by simp_all
  moreover from this(2) have "wire_node (type_byte STRING # put16 len @ p)"
    by (rule string)
  ultimately show ?thesis using STRING by blast
next
  case LONG_STRING
  with assms(4) obtain len r1 p where g: "get32 bs = Some (len, r1)"
    and b: "get_bytes (unat len) r1 = Some (p, r)"
    by (auto simp: dec_scalar_def split: option.splits)
  from put32_get32 [OF g] get_bytes_split [OF b]
  have "bs = (put32 len @ p) @ r" and "length p = unat len" by simp_all
  moreover from this(2) have "wire_node (type_byte LONG_STRING # put32 len @ p)"
    by (rule long_string)
  ultimately show ?thesis using LONG_STRING by blast
next
  case BYTE_ARRAY
  with assms(4) obtain len r1 p where g: "get32 bs = Some (len, r1)"
    and b: "get_bytes (unat len) r1 = Some (p, r)"
    by (auto simp: dec_scalar_def split: option.splits)
  from put32_get32 [OF g] get_bytes_split [OF b]
  have "bs = (put32 len @ p) @ r" and "length p = unat len" by simp_all
  moreover from this(2) have "wire_node (type_byte BYTE_ARRAY # put32 len @ p)"
    by (rule byte_array)
  ultimately show ?thesis using BYTE_ARRAY by blast
qed (use assms in simp_all)

lemma repeat_parse_nodes:
  assumes "\<forall>bs x r. p bs = Inr (x, r) \<longrightarrow> (\<exists>c. bs = c @ r \<and> wire_node c)"
  shows "repeat_parse count p bs = Inr (xs, r) \<Longrightarrow> \<exists>es. bs = es @ r \<and> wire_nodes count es"
proof (induction count arbitrary: bs xs)
  case 0
  then show ?case by (auto intro: no_nodes)
next
  case (Suc count)
  from Suc.prems obtain x r1 xs' where
    p: "p bs = Inr (x, r1)" and rest: "repeat_parse count p r1 = Inr (xs', r)"
    by (auto split: sum.splits)
  from assms p obtain c where c: "bs = c @ r1" "wire_node c" by blast
  from Suc.IH [OF rest] obtain es where es: "r1 = es @ r" "wire_nodes count es" by blast
  from c es have "bs = (c @ es) @ r" "wire_nodes (Suc count) (c @ es)"
    by (auto intro: more_nodes)
  then show ?case by blast
qed

lemma repeat_parse_object_entries:
  assumes "\<forall>bs x r. child bs = Inr (x, r) \<longrightarrow> (\<exists>c. bs = c @ r \<and> wire_node c)"
  shows "repeat_parse count (object_entry child) bs = Inr (xs, r) \<Longrightarrow>
         \<exists>es. bs = es @ r \<and> wire_object_entries count es"
proof (induction count arbitrary: bs xs)
  case 0
  then show ?case by (auto intro: no_object_entries)
next
  case (Suc count)
  from Suc.prems obtain x r1 xs' where
    p: "object_entry child bs = Inr (x, r1)"
    and rest: "repeat_parse count (object_entry child) r1 = Inr (xs', r)"
    by (auto split: sum.splits)
  from p obtain k r0 v where g: "get32 bs = Some (k, r0)" and ch: "child r0 = Inr (v, r1)"
    by (auto simp: object_entry_def split: option.splits sum.splits)
  from get32_split [OF g] obtain kb where kb: "bs = kb @ r0" "length kb = 4" by blast
  from assms ch obtain c where c: "r0 = c @ r1" "wire_node c" by blast
  from Suc.IH [OF rest] obtain es where es: "r1 = es @ r" "wire_object_entries count es"
    by blast
  from kb c es have "bs = (kb @ c @ es) @ r" "wire_object_entries (Suc count) (kb @ c @ es)"
    by (auto intro: more_object_entries)
  then show ?case by blast
qed

lemma repeat_parse_dictionary_entries:
  assumes "\<forall>bs x r. child bs = Inr (x, r) \<longrightarrow> (\<exists>c. bs = c @ r \<and> wire_node c)"
  shows "repeat_parse count (dictionary_entry child) bs = Inr (xs, r) \<Longrightarrow>
         \<exists>es. bs = es @ r \<and> wire_dictionary_entries count es"
proof (induction count arbitrary: bs xs)
  case 0
  then show ?case by (auto intro: no_dictionary_entries)
next
  case (Suc count)
  from Suc.prems obtain x r1 xs' where
    p: "dictionary_entry child bs = Inr (x, r1)"
    and rest: "repeat_parse count (dictionary_entry child) r1 = Inr (xs', r)"
    by (auto split: sum.splits)
  from p obtain len r0 k r00 v where g: "get16 bs = Some (len, r0)"
    and b: "get_bytes (unat len) r0 = Some (k, r00)" and ch: "child r00 = Inr (v, r1)"
    by (auto simp: dictionary_entry_def split: option.splits sum.splits)
  from put16_get16 [OF g] get_bytes_split [OF b]
  have kb: "bs = put16 len @ k @ r00" "length k = unat len" by simp_all
  from assms ch obtain c where c: "r00 = c @ r1" "wire_node c" by blast
  from Suc.IH [OF rest] obtain es where es: "r1 = es @ r" "wire_dictionary_entries count es"
    by blast
  from kb c es have "bs = (put16 len @ k @ c @ es) @ r"
    "wire_dictionary_entries (Suc count) (put16 len @ k @ c @ es)"
    by (auto intro: more_dictionary_entries)
  then show ?case by blast
qed

lemma dec_node: "dec widen n this bs = Inr (v, r) \<Longrightarrow> \<exists>c. bs = c @ r \<and> wire_node c"
proof (induction n arbitrary: this bs v r)
  case 0
  then show ?case by simp
next
  case (Suc n)
  have child: "\<forall>bs x r. dec widen n Value_default bs = Inr (x, r) \<longrightarrow>
      (\<exists>c. bs = c @ r \<and> wire_node c)"
    using Suc.IH by blast
  from Suc.prems obtain tag rest t where bs: "bs = tag # rest" and t: "byte_type tag = Some t"
    by (auto split: list.splits option.splits)
  from byte_type_Some [OF t] have tag: "tag = type_byte t" .
  consider (obj) "t = OBJECT" | (arr) "t = ARRAY" | (dict) "t = DICTIONARY"
    | (scalar) "t \<noteq> OBJECT" "t \<noteq> ARRAY" "t \<noteq> DICTIONARY"
    by blast
  then have "\<exists>p. rest = p @ r \<and> wire_node (type_byte t # p)"
  proof cases
    case obj
    with Suc.prems bs t obtain count r1 es where g: "get32 rest = Some (count, r1)" and
      rp: "repeat_parse (unat count) (object_entry (dec widen n Value_default)) r1 = Inr (es, r)"
      by (auto split: option.splits sum.splits)
    from repeat_parse_object_entries [OF child rp] obtain eb where
      eb: "r1 = eb @ r" "wire_object_entries (unat count) eb" by blast
    from put32_get32 [OF g] eb have "rest = (put32 count @ eb) @ r" by simp
    moreover from eb(2) have "wire_node (type_byte OBJECT # put32 count @ eb)"
      by (rule object)
    ultimately show ?thesis using obj by blast
  next
    case arr
    with Suc.prems bs t obtain count r1 vs where g: "get32 rest = Some (count, r1)" and
      rp: "repeat_parse (unat count) (dec widen n Value_default) r1 = Inr (vs, r)"
      by (auto split: option.splits sum.splits)
    from repeat_parse_nodes [OF child rp] obtain eb where
      eb: "r1 = eb @ r" "wire_nodes (unat count) eb" by blast
    from put32_get32 [OF g] eb have "rest = (put32 count @ eb) @ r" by simp
    moreover from eb(2) have "wire_node (type_byte ARRAY # put32 count @ eb)"
      by (rule array)
    ultimately show ?thesis using arr by blast
  next
    case dict
    with Suc.prems bs t obtain count r1 es where g: "get32 rest = Some (count, r1)" and
      rp: "repeat_parse (unat count) (dictionary_entry (dec widen n Value_default)) r1
             = Inr (es, r)"
      by (auto split: option.splits sum.splits)
    from repeat_parse_dictionary_entries [OF child rp] obtain eb where
      eb: "r1 = eb @ r" "wire_dictionary_entries (unat count) eb" by blast
    from put32_get32 [OF g] eb have "rest = (put32 count @ eb) @ r" by simp
    moreover from eb(2) have "wire_node (type_byte DICTIONARY # put32 count @ eb)"
      by (rule dictionary)
    ultimately show ?thesis using dict by blast
  next
    case scalar
    with Suc.prems bs t have "dec_scalar widen t this rest = Inr (v, r)"
      by simp
    from dec_scalar_node [OF scalar this] show ?thesis .
  qed
  then obtain p where "rest = p @ r" "wire_node (type_byte t # p)" by blast
  then have "bs = (type_byte t # p) @ r" by (simp add: bs tag)
  with \<open>wire_node (type_byte t # p)\<close> show ?case by blast
qed

lemma get8_ok: "length p = 1 \<Longrightarrow> \<exists>w. get8 (p @ r) = Some (w, r)"
  by (cases p rule: get8.cases) auto

lemma get16_ok: "length p = 2 \<Longrightarrow> \<exists>w. get16 (p @ r) = Some (w, r)"
  by (cases p rule: get16.cases) auto

lemma get32_ok: "length p = 4 \<Longrightarrow> \<exists>w. get32 (p @ r) = Some (w, r)"
  by (cases p rule: get32.cases) auto

lemma get64_ok: "length p = 8 \<Longrightarrow> \<exists>w. get64 (p @ r) = Some (w, r)"
  by (cases p rule: get64.cases) auto

lemma get_bytes_ok: "length p = n \<Longrightarrow> get_bytes n (p @ r) = Some (p, r)"
  by (simp add: get_bytes_def)

lemma node_dec:
  fixes widen :: "32 word \<Rightarrow> 64 word"
  shows
    "wire_node c \<Longrightarrow>
       \<forall>n this r. length c \<le> n \<longrightarrow> (\<exists>v. dec widen n this (c @ r) = Inr (v, r))"
    and "wire_nodes k es \<Longrightarrow>
       \<forall>n r. length es \<le> n \<longrightarrow>
         (\<exists>vs. repeat_parse k (dec widen n Value_default) (es @ r) = Inr (vs, r))"
    and "wire_object_entries k es \<Longrightarrow>
       \<forall>n r. length es \<le> n \<longrightarrow>
         (\<exists>xs. repeat_parse k (object_entry (dec widen n Value_default)) (es @ r) =
            Inr (xs, r))"
    and "wire_dictionary_entries k es \<Longrightarrow>
       \<forall>n r. length es \<le> n \<longrightarrow>
         (\<exists>xs. repeat_parse k (dictionary_entry (dec widen n Value_default)) (es @ r) =
            Inr (xs, r))"
proof (induction rule: wire_node_wire_nodes_wire_object_entries_wire_dictionary_entries.inducts)
  case none
  show ?case
  proof (intro allI impI)
    fix n this r assume "length [type_byte NONE] \<le> n"
    then obtain n' where n: "n = Suc n'" by (cases n) auto
    show "\<exists>v. dec widen n this ([type_byte NONE] @ r) = Inr (v, r)"
      by (simp add: n dec_scalar_step dec_scalar_def del: dec.simps type_byte.simps)
  qed
next
  case (int8 p)
  show ?case
  proof (intro allI impI)
    fix n this r assume "length (type_byte INT8 # p) \<le> n"
    then obtain n' where n: "n = Suc n'" by (cases n) auto
    from get8_ok [OF int8, of r] obtain w where "get8 (p @ r) = Some (w, r)" by blast
    then show "\<exists>v. dec widen n this ((type_byte INT8 # p) @ r) = Inr (v, r)"
      by (simp add: n dec_scalar_step dec_scalar_def del: dec.simps type_byte.simps)
  qed
next
  case (int16 p)
  show ?case
  proof (intro allI impI)
    fix n this r assume "length (type_byte INT16 # p) \<le> n"
    then obtain n' where n: "n = Suc n'" by (cases n) auto
    from get16_ok [OF int16, of r] obtain w where "get16 (p @ r) = Some (w, r)" by blast
    then show "\<exists>v. dec widen n this ((type_byte INT16 # p) @ r) = Inr (v, r)"
      by (simp add: n dec_scalar_step dec_scalar_def del: dec.simps type_byte.simps)
  qed
next
  case (int32 p)
  show ?case
  proof (intro allI impI)
    fix n this r assume "length (type_byte INT32 # p) \<le> n"
    then obtain n' where n: "n = Suc n'" by (cases n) auto
    from get32_ok [OF int32, of r] obtain w where "get32 (p @ r) = Some (w, r)" by blast
    then show "\<exists>v. dec widen n this ((type_byte INT32 # p) @ r) = Inr (v, r)"
      by (simp add: n dec_scalar_step dec_scalar_def del: dec.simps type_byte.simps)
  qed
next
  case (int64 p)
  show ?case
  proof (intro allI impI)
    fix n this r assume "length (type_byte INT64 # p) \<le> n"
    then obtain n' where n: "n = Suc n'" by (cases n) auto
    from get64_ok [OF int64, of r] obtain w where "get64 (p @ r) = Some (w, r)" by blast
    then show "\<exists>v. dec widen n this ((type_byte INT64 # p) @ r) = Inr (v, r)"
      by (simp add: n dec_scalar_step dec_scalar_def del: dec.simps type_byte.simps)
  qed
next
  case (float p)
  show ?case
  proof (intro allI impI)
    fix n this r assume "length (type_byte FLOAT # p) \<le> n"
    then obtain n' where n: "n = Suc n'" by (cases n) auto
    from get32_ok [OF float, of r] obtain w where "get32 (p @ r) = Some (w, r)" by blast
    then show "\<exists>v. dec widen n this ((type_byte FLOAT # p) @ r) = Inr (v, r)"
      by (simp add: n dec_scalar_step dec_scalar_def del: dec.simps type_byte.simps)
  qed
next
  case (double p)
  show ?case
  proof (intro allI impI)
    fix n this r assume "length (type_byte DOUBLE # p) \<le> n"
    then obtain n' where n: "n = Suc n'" by (cases n) auto
    from get64_ok [OF double, of r] obtain w where "get64 (p @ r) = Some (w, r)" by blast
    then show "\<exists>v. dec widen n this ((type_byte DOUBLE # p) @ r) = Inr (v, r)"
      by (simp add: n dec_scalar_step dec_scalar_def del: dec.simps type_byte.simps)
  qed
next
  case (string p len)
  show ?case
  proof (intro allI impI)
    fix n this r assume "length (type_byte STRING # put16 len @ p) \<le> n"
    then obtain n' where n: "n = Suc n'" by (cases n) auto
    show "\<exists>v. dec widen n this ((type_byte STRING # put16 len @ p) @ r) = Inr (v, r)"
      using get_bytes_ok [OF string, of r]
      by (simp add: n dec_scalar_step dec_scalar_def del: dec.simps type_byte.simps)
  qed
next
  case (long_string p len)
  show ?case
  proof (intro allI impI)
    fix n this r assume "length (type_byte LONG_STRING # put32 len @ p) \<le> n"
    then obtain n' where n: "n = Suc n'" by (cases n) auto
    show "\<exists>v. dec widen n this ((type_byte LONG_STRING # put32 len @ p) @ r) = Inr (v, r)"
      using get_bytes_ok [OF long_string, of r]
      by (simp add: n dec_scalar_step dec_scalar_def del: dec.simps type_byte.simps)
  qed
next
  case (byte_array p len)
  show ?case
  proof (intro allI impI)
    fix n this r assume "length (type_byte BYTE_ARRAY # put32 len @ p) \<le> n"
    then obtain n' where n: "n = Suc n'" by (cases n) auto
    show "\<exists>v. dec widen n this ((type_byte BYTE_ARRAY # put32 len @ p) @ r) = Inr (v, r)"
      using get_bytes_ok [OF byte_array, of r]
      by (simp add: n dec_scalar_step dec_scalar_def del: dec.simps type_byte.simps)
  qed
next
  case (object count es)
  show ?case
  proof (intro allI impI)
    fix n this r assume "length (type_byte OBJECT # put32 count @ es) \<le> n"
    then obtain n' where n: "n = Suc n'" and n': "length es \<le> n'" by (cases n) auto
    from object.IH n' obtain xs where
      "repeat_parse (unat count) (object_entry (dec widen n' Value_default)) (es @ r) =
         Inr (xs, r)"
      by blast
    then show "\<exists>v. dec widen n this ((type_byte OBJECT # put32 count @ es) @ r) = Inr (v, r)"
      by (simp add: n dec_container_step del: dec.simps type_byte.simps)
  qed
next
  case (array count es)
  show ?case
  proof (intro allI impI)
    fix n this r assume "length (type_byte ARRAY # put32 count @ es) \<le> n"
    then obtain n' where n: "n = Suc n'" and n': "length es \<le> n'" by (cases n) auto
    from array.IH n' obtain xs where
      "repeat_parse (unat count) (dec widen n' Value_default) (es @ r) = Inr (xs, r)"
      by blast
    then show "\<exists>v. dec widen n this ((type_byte ARRAY # put32 count @ es) @ r) = Inr (v, r)"
      by (simp add: n dec_container_step del: dec.simps type_byte.simps)
  qed
next
  case (dictionary count es)
  show ?case
  proof (intro allI impI)
    fix n this r assume "length (type_byte DICTIONARY # put32 count @ es) \<le> n"
    then obtain n' where n: "n = Suc n'" and n': "length es \<le> n'" by (cases n) auto
    from dictionary.IH n' obtain xs where
      "repeat_parse (unat count) (dictionary_entry (dec widen n' Value_default)) (es @ r) =
         Inr (xs, r)"
      by blast
    then show "\<exists>v. dec widen n this ((type_byte DICTIONARY # put32 count @ es) @ r) = Inr (v, r)"
      by (simp add: n dec_container_step del: dec.simps type_byte.simps)
  qed
next
  case no_nodes
  show ?case by simp
next
  case (more_nodes x k xs)
  show ?case
  proof (intro allI impI)
    fix n r assume len: "length (x @ xs) \<le> n"
    from more_nodes.IH(1) len obtain v where
      "dec widen n Value_default (x @ xs @ r) = Inr (v, xs @ r)"
      by (metis le_add1 le_trans length_append)
    moreover from more_nodes.IH(2) len obtain vs where
      "repeat_parse k (dec widen n Value_default) (xs @ r) = Inr (vs, r)"
      by (metis le_add2 le_trans length_append)
    ultimately show "\<exists>vs. repeat_parse (Suc k) (dec widen n Value_default) ((x @ xs) @ r)
        = Inr (vs, r)"
      by simp
  qed
next
  case no_object_entries
  show ?case by simp
next
  case (more_object_entries key x k xs)
  show ?case
  proof (intro allI impI)
    fix n r assume len: "length (key @ x @ xs) \<le> n"
    from get32_ok [OF more_object_entries.hyps(1), of "x @ xs @ r"] obtain w where
      g: "get32 (key @ x @ xs @ r) = Some (w, x @ xs @ r)" by blast
    from more_object_entries.IH(1) len obtain v where
      "dec widen n Value_default (x @ xs @ r) = Inr (v, xs @ r)"
      by (metis le_add1 le_add2 le_trans length_append)
    moreover from more_object_entries.IH(2) len obtain vs where
      "repeat_parse k (object_entry (dec widen n Value_default)) (xs @ r) = Inr (vs, r)"
      by (metis le_add2 le_trans length_append)
    ultimately show "\<exists>vs. repeat_parse (Suc k) (object_entry (dec widen n Value_default))
        ((key @ x @ xs) @ r) = Inr (vs, r)"
      using g by (simp add: object_entry_def)
  qed
next
  case no_dictionary_entries
  show ?case by simp
next
  case (more_dictionary_entries key len x k xs)
  show ?case
  proof (intro allI impI)
    fix n r assume le: "length (put16 len @ key @ x @ xs) \<le> n"
    from more_dictionary_entries.IH(1) le obtain v where
      "dec widen n Value_default (x @ xs @ r) = Inr (v, xs @ r)"
      by (metis le_add1 le_add2 le_trans length_append)
    moreover from more_dictionary_entries.IH(2) le obtain vs where
      "repeat_parse k (dictionary_entry (dec widen n Value_default)) (xs @ r) = Inr (vs, r)"
      by (metis le_add2 le_trans length_append)
    ultimately show "\<exists>vs. repeat_parse (Suc k) (dictionary_entry (dec widen n Value_default))
        ((put16 len @ key @ x @ xs) @ r) = Inr (vs, r)"
      using get_bytes_ok [OF more_dictionary_entries.hyps(1), of "x @ xs @ r"]
      by (simp add: dictionary_entry_def)
  qed
qed

lemma dec_scalar_error: "dec_scalar widen t this bs = Inl e \<Longrightarrow> e = Truncated"
  by (cases t) (auto simp: dec_scalar_def split: option.splits)

lemma repeat_parse_error:
  assumes "\<forall>bs e. p bs = Inl e \<longrightarrow> e = UnknownTag \<or> e = Truncated"
  shows "repeat_parse c p bs = Inl e \<Longrightarrow> e = UnknownTag \<or> e = Truncated"
proof (induction c arbitrary: bs)
  case 0
  then show ?case by simp
next
  case (Suc c)
  then show ?case using assms by (auto split: sum.splits)
qed

lemma object_entry_error:
  assumes "\<forall>bs e. child bs = Inl e \<longrightarrow> e = UnknownTag \<or> e = Truncated"
  shows "object_entry child bs = Inl e \<Longrightarrow> e = UnknownTag \<or> e = Truncated"
  using assms by (fastforce simp: object_entry_def split: option.splits sum.splits)

lemma dictionary_entry_error:
  assumes "\<forall>bs e. child bs = Inl e \<longrightarrow> e = UnknownTag \<or> e = Truncated"
  shows "dictionary_entry child bs = Inl e \<Longrightarrow> e = UnknownTag \<or> e = Truncated"
  using assms by (fastforce simp: dictionary_entry_def split: option.splits sum.splits)

lemma dec_error: "dec widen n this bs = Inl e \<Longrightarrow> e = UnknownTag \<or> e = Truncated"
proof (induction n arbitrary: this bs e)
  case 0
  then show ?case by simp
next
  case (Suc n)
  have child: "\<forall>bs e. dec widen n Value_default bs = Inl e \<longrightarrow> e = UnknownTag \<or> e = Truncated"
    using Suc.IH by blast
  have entry: "\<forall>bs e. object_entry (dec widen n Value_default) bs = Inl e \<longrightarrow>
      e = UnknownTag \<or> e = Truncated"
    using object_entry_error [OF child] by blast
  have key_entry: "\<forall>bs e. dictionary_entry (dec widen n Value_default) bs = Inl e \<longrightarrow>
      e = UnknownTag \<or> e = Truncated"
    using dictionary_entry_error [OF child] by blast
  from Suc.prems show ?case
    by (auto split: list.splits option.splits if_splits sum.splits
        dest: dec_scalar_error repeat_parse_error [OF child] repeat_parse_error [OF entry]
          repeat_parse_error [OF key_entry])
qed

subsection \<open>Buffers that end inside a node\<close>

lemma get8_ext: "get8 bs = Some (w, r) \<Longrightarrow> get8 (bs @ ext) = Some (w, r @ ext)"
  by (cases bs rule: get8.cases) auto

lemma get16_ext: "get16 bs = Some (w, r) \<Longrightarrow> get16 (bs @ ext) = Some (w, r @ ext)"
  by (cases bs rule: get16.cases) auto

lemma get32_ext: "get32 bs = Some (w, r) \<Longrightarrow> get32 (bs @ ext) = Some (w, r @ ext)"
  by (cases bs rule: get32.cases) auto

lemma get64_ext: "get64 bs = Some (w, r) \<Longrightarrow> get64 (bs @ ext) = Some (w, r @ ext)"
  by (cases bs rule: get64.cases) auto

lemma get_bytes_ext:
  "get_bytes n bs = Some (x, r) \<Longrightarrow> get_bytes n (bs @ ext) = Some (x, r @ ext)"
  by (auto simp: get_bytes_def split: if_splits)

lemma dec_scalar_ext:
  "dec_scalar widen t this bs = Inr (v, r) \<Longrightarrow>
   dec_scalar widen t this (bs @ ext) = Inr (v, r @ ext)"
  by (cases t)
    (auto simp: dec_scalar_def get8_ext get16_ext get32_ext get64_ext get_bytes_ext
      split: option.splits)

lemma repeat_parse_ext:
  assumes "\<forall>bs x r. p bs = Inr (x, r) \<longrightarrow> p (bs @ ext) = Inr (x, r @ ext)"
  shows "repeat_parse c p bs = Inr (xs, r) \<Longrightarrow>
         repeat_parse c p (bs @ ext) = Inr (xs, r @ ext)"
proof (induction c arbitrary: bs xs)
  case 0
  then show ?case by simp
next
  case (Suc c)
  from Suc.prems obtain x r1 xs' where
    p: "p bs = Inr (x, r1)" and rest: "repeat_parse c p r1 = Inr (xs', r)"
    and xs: "xs = x # xs'"
    by (auto split: sum.splits)
  from assms p have "p (bs @ ext) = Inr (x, r1 @ ext)" by blast
  with Suc.IH [OF rest] xs show ?case by simp
qed

lemma repeat_parse_ext_unknown:
  assumes "\<forall>bs x r. p bs = Inr (x, r) \<longrightarrow> p (bs @ ext) = Inr (x, r @ ext)"
    and "\<forall>bs. p bs = Inl UnknownTag \<longrightarrow> p (bs @ ext) = Inl UnknownTag"
  shows "repeat_parse c p bs = Inl UnknownTag \<Longrightarrow>
         repeat_parse c p (bs @ ext) = Inl UnknownTag"
proof (induction c arbitrary: bs)
  case 0
  then show ?case by simp
next
  case (Suc c)
  show ?case
  proof (cases "p bs")
    case (Inl e)
    with Suc.prems have "p bs = Inl UnknownTag" by simp
    with assms(2) have "p (bs @ ext) = Inl UnknownTag" by blast
    then show ?thesis by simp
  next
    case (Inr res)
    obtain x r1 where res: "res = (x, r1)" by (cases res)
    with Inr Suc.prems have "repeat_parse c p r1 = Inl UnknownTag"
      by (auto split: sum.splits)
    from Suc.IH [OF this] have "repeat_parse c p (r1 @ ext) = Inl UnknownTag" .
    moreover from assms(1) Inr res have "p (bs @ ext) = Inr (x, r1 @ ext)" by blast
    ultimately show ?thesis by simp
  qed
qed

lemma object_entry_ext:
  assumes "\<forall>bs x r. child bs = Inr (x, r) \<longrightarrow> child (bs @ ext) = Inr (x, r @ ext)"
  shows "object_entry child bs = Inr (x, r) \<Longrightarrow>
         object_entry child (bs @ ext) = Inr (x, r @ ext)"
  using assms
  by (fastforce simp: object_entry_def get32_ext split: option.splits sum.splits)

lemma object_entry_ext_unknown:
  assumes "\<forall>bs. child bs = Inl UnknownTag \<longrightarrow> child (bs @ ext) = Inl UnknownTag"
  shows "object_entry child bs = Inl UnknownTag \<Longrightarrow>
         object_entry child (bs @ ext) = Inl UnknownTag"
  using assms
  by (fastforce simp: object_entry_def get32_ext split: option.splits sum.splits)

lemma dictionary_entry_ext:
  assumes "\<forall>bs x r. child bs = Inr (x, r) \<longrightarrow> child (bs @ ext) = Inr (x, r @ ext)"
  shows "dictionary_entry child bs = Inr (x, r) \<Longrightarrow>
         dictionary_entry child (bs @ ext) = Inr (x, r @ ext)"
  using assms
  by (fastforce simp: dictionary_entry_def get16_ext get_bytes_ext
      split: option.splits sum.splits)

lemma dictionary_entry_ext_unknown:
  assumes "\<forall>bs. child bs = Inl UnknownTag \<longrightarrow> child (bs @ ext) = Inl UnknownTag"
  shows "dictionary_entry child bs = Inl UnknownTag \<Longrightarrow>
         dictionary_entry child (bs @ ext) = Inl UnknownTag"
  using assms
  by (fastforce simp: dictionary_entry_def get16_ext get_bytes_ext
      split: option.splits sum.splits)

lemma dec_ext:
  "(dec widen n this bs = Inr (v, r) \<longrightarrow> dec widen n this (bs @ ext) = Inr (v, r @ ext)) \<and>
   (dec widen n this bs = Inl UnknownTag \<longrightarrow> dec widen n this (bs @ ext) = Inl UnknownTag)"
proof (induction n arbitrary: this bs v r)
  case 0
  then show ?case by simp
next
  case (Suc n)
  let ?child = "dec widen n Value_default"
  have ok: "\<forall>bs x r. ?child bs = Inr (x, r) \<longrightarrow> ?child (bs @ ext) = Inr (x, r @ ext)"
    using Suc.IH by blast
  have bad: "\<forall>bs. ?child bs = Inl UnknownTag \<longrightarrow> ?child (bs @ ext) = Inl UnknownTag"
    using Suc.IH by blast
  have ok_o: "\<forall>bs x r. object_entry ?child bs = Inr (x, r) \<longrightarrow>
      object_entry ?child (bs @ ext) = Inr (x, r @ ext)"
    using object_entry_ext [OF ok] by blast
  have bad_o: "\<forall>bs. object_entry ?child bs = Inl UnknownTag \<longrightarrow>
      object_entry ?child (bs @ ext) = Inl UnknownTag"
    using object_entry_ext_unknown [OF bad] by blast
  have ok_d: "\<forall>bs x r. dictionary_entry ?child bs = Inr (x, r) \<longrightarrow>
      dictionary_entry ?child (bs @ ext) = Inr (x, r @ ext)"
    using dictionary_entry_ext [OF ok] by blast
  have bad_d: "\<forall>bs. dictionary_entry ?child bs = Inl UnknownTag \<longrightarrow>
      dictionary_entry ?child (bs @ ext) = Inl UnknownTag"
    using dictionary_entry_ext_unknown [OF bad] by blast
  show ?case
  proof (cases bs)
    case Nil
    then show ?thesis by simp
  next
    case (Cons tag rest)
    show ?thesis
    proof (cases "byte_type tag")
      case None
      with Cons show ?thesis by simp
    next
      case (Some t)
      consider (obj) "t = OBJECT" | (arr) "t = ARRAY" | (dict) "t = DICTIONARY"
        | (scalar) "t \<noteq> OBJECT" "t \<noteq> ARRAY" "t \<noteq> DICTIONARY"
        by blast
      then show ?thesis
      proof cases
        case obj
        show ?thesis
          unfolding Cons using Some obj
          by (auto simp: get32_ext split: option.splits sum.splits
              dest: repeat_parse_ext [OF ok_o] repeat_parse_ext_unknown [OF ok_o bad_o])
      next
        case arr
        show ?thesis
          unfolding Cons using Some arr
          by (auto simp: get32_ext split: option.splits sum.splits
              dest: repeat_parse_ext [OF ok] repeat_parse_ext_unknown [OF ok bad])
      next
        case dict
        show ?thesis
          unfolding Cons using Some dict
          by (auto simp: get32_ext split: option.splits sum.splits
              dest: repeat_parse_ext [OF ok_d] repeat_parse_ext_unknown [OF ok_d bad_d])
      next
        case scalar
        show ?thesis
          unfolding Cons using Some scalar
          by (auto simp: dec_scalar_ext dest: dec_scalar_error)
      qed
    qed
  qed
qed

lemma dec_truncated:
  assumes "wire_node (bs @ missing)" and "missing \<noteq> []" and "length bs \<le> n"
  shows "dec widen n this bs = Inl Truncated"
proof -
  let ?N = "n + length missing"
  have same: "dec widen n this bs = dec widen ?N this bs"
    using dec_bound_irrelevant [of bs n widen this] dec_bound_irrelevant [of bs ?N widen this]
      assms(3)
    by simp
  from node_dec(1) [OF assms(1), of widen] assms(3) obtain v where
    whole: "dec widen ?N this (bs @ missing) = Inr (v, [])"
    by (metis add_le_mono1 append_Nil2 length_append)
  show ?thesis
  proof (cases "dec widen ?N this bs")
    case (Inr res)
    obtain v' r' where "res = (v', r')" by (cases res)
    with Inr dec_ext [of widen ?N this bs v' r' missing]
    have "dec widen ?N this (bs @ missing) = Inr (v', r' @ missing)" by simp
    with whole assms(2) show ?thesis by simp
  next
    case (Inl e)
    have "e \<noteq> UnknownTag"
    proof
      assume "e = UnknownTag"
      with Inl dec_ext [of widen ?N this bs undefined undefined missing]
      have "dec widen ?N this (bs @ missing) = Inl UnknownTag" by simp
      with whole show False by simp
    qed
    with dec_error [OF Inl] have "e = Truncated" by simp
    with Inl same show ?thesis by simp
  qed
qed

subsection \<open>Decoding a malformed buffer\<close>

text \<open>
  C2. decode returns an error, \<open>UnknownTag\<close> or \<open>Truncated\<close> and nothing else, whenever
  the bytes from the offset on do not start with one complete node of the wire format
  (\<open>wire_node\<close>): a node whose tag byte, or the tag byte of any element or entry inside
  it, is not one of the tags 0 to 12 is not complete, and neither is one whose payload,
  length prefix, count prefix, key or descendant runs past the end of the buffer.
  \<^item> When decode returns a count of consumed bytes, the bytes from the offset on start
    with a complete node that lies inside the buffer, and the count is its length.
  \<^item> So when the bytes from the offset on do not start with a complete node, decode
    returns \<open>UnknownTag\<close> or \<open>Truncated\<close>.
  \<^item> Nothing else fails: when a complete node starts at the offset, decode returns
    its length.
  \<^item> When the buffer ends inside a node, that is when the bytes from the offset on
    would be a complete node only with more bytes after them, the error is
    \<open>Truncated\<close>, at whatever depth the missing bytes belong.
  \<^item> At the offset itself: no byte there is \<open>Truncated\<close>; a tag byte above 12 is
    \<open>UnknownTag\<close>; a STRING, LONG_STRING or BYTE_ARRAY whose length prefix exceeds the
    bytes left after it is \<open>Truncated\<close> (so for a STRING tag, the length 100 and 10
    more bytes); a container whose count prefix exceeds the bytes left is an error.
\<close>

theorem decode_malformed:
  "(decode widen this buffer offset = Inr (n, this') \<longrightarrow>
      (\<exists>c r. drop (unat offset) buffer = c @ r \<and> wire_node c \<and> n = of_nat (length c))) \<and>
   ((\<forall>c r. drop (unat offset) buffer = c @ r \<longrightarrow> \<not> wire_node c) \<longrightarrow>
      decode widen this buffer offset = Inl UnknownTag \<or>
      decode widen this buffer offset = Inl Truncated) \<and>
   (drop (unat offset) buffer = node @ after \<and> wire_node node \<longrightarrow>
      (\<exists>that. decode widen this buffer offset = Inr (of_nat (length node), that))) \<and>
   (wire_node (drop (unat offset) buffer @ missing) \<and> missing \<noteq> [] \<longrightarrow>
      decode widen this buffer offset = Inl Truncated) \<and>
   (decode widen this buffer offset = Inl e \<longrightarrow> e = UnknownTag \<or> e = Truncated) \<and>
   (length buffer \<le> unat offset \<longrightarrow> decode widen this buffer offset = Inl Truncated) \<and>
   (drop (unat offset) buffer = tag # rest \<longrightarrow>
      (12 < unat tag \<longrightarrow> decode widen this buffer offset = Inl UnknownTag) \<and>
      (tag = type_byte STRING \<and> get16 rest = Some (slen, srest) \<and> length srest < unat slen \<longrightarrow>
         decode widen this buffer offset = Inl Truncated) \<and>
      ((tag = type_byte LONG_STRING \<or> tag = type_byte BYTE_ARRAY) \<and>
       get32 rest = Some (llen, lrest) \<and> length lrest < unat llen \<longrightarrow>
         decode widen this buffer offset = Inl Truncated) \<and>
      ((tag = type_byte OBJECT \<or> tag = type_byte ARRAY \<or> tag = type_byte DICTIONARY) \<and>
       get32 rest = Some (count, crest) \<and> length crest < unat count \<longrightarrow>
         (\<exists>e. decode widen this buffer offset = Inl e))) \<and>
   (\<forall>m that. decode widen this buffer offset = Inr (m, that) \<longrightarrow>
      unat offset + unat m \<le> length buffer)"
proof (intro conjI impI allI)
  let ?unread = "drop (unat offset) buffer"
  assume ok: "decode widen this buffer offset = Inr (n, this')"
  then obtain r where d: "dec widen (length ?unread) this ?unread = Inr (this', r)"
    and n: "n = of_nat (length ?unread - length r)"
    by (auto simp: decode_def Let_def split: sum.splits)
  from dec_node [OF d] obtain c where c: "?unread = c @ r" "wire_node c" by blast
  then have "length ?unread - length r = length c" by simp
  with c n show "\<exists>c r. ?unread = c @ r \<and> wire_node c \<and> n = of_nat (length c)"
    by metis
next
  let ?unread = "drop (unat offset) buffer"
  assume incomplete: "\<forall>c r. ?unread = c @ r \<longrightarrow> \<not> wire_node c"
  show "decode widen this buffer offset = Inl UnknownTag \<or>
      decode widen this buffer offset = Inl Truncated"
  proof (cases "dec widen (length ?unread) this ?unread")
    case (Inl e)
    from dec_error [OF Inl] have "e = UnknownTag \<or> e = Truncated" .
    with Inl show ?thesis by (auto simp: decode_def)
  next
    case (Inr found)
    obtain that r where "found = (that, r)" by (cases found)
    with Inr have "dec widen (length ?unread) this ?unread = Inr (that, r)" by simp
    from dec_node [OF this] incomplete show ?thesis by blast
  qed
next
  let ?unread = "drop (unat offset) buffer"
  assume h: "?unread = node @ after \<and> wire_node node"
  then have "length node \<le> length ?unread" by simp
  with h node_dec(1) [of node widen] obtain v where
    "dec widen (length ?unread) this (node @ after) = Inr (v, after)"
    by blast
  with h have "decode widen this buffer offset = Inr (of_nat (length node), v)"
    by (simp add: decode_def Let_def)
  then show "\<exists>that. decode widen this buffer offset = Inr (of_nat (length node), that)"
    by blast
next
  let ?unread = "drop (unat offset) buffer"
  assume "wire_node (?unread @ missing) \<and> missing \<noteq> []"
  then have "dec widen (length ?unread) this ?unread = Inl Truncated"
    by (intro dec_truncated [of ?unread missing]) simp_all
  then show "decode widen this buffer offset = Inl Truncated"
    by (simp add: decode_def)
next
  assume "decode widen this buffer offset = Inl e"
  then have "dec widen (length (drop (unat offset) buffer)) this (drop (unat offset) buffer)
      = Inl e"
    by (auto simp: decode_def Let_def split: sum.splits)
  then show "e = UnknownTag \<or> e = Truncated"
    by (rule dec_error)
next
  assume "length buffer \<le> unat offset"
  then show "decode widen this buffer offset = Inl Truncated"
    by (simp add: decode_def)
next
  assume at: "drop (unat offset) buffer = tag # rest" and "12 < unat tag"
  then have "byte_type tag = None" by (simp add: byte_type_None)
  then show "decode widen this buffer offset = Inl UnknownTag"
    by (simp add: decode_at [OF at])
next
  assume at: "drop (unat offset) buffer = tag # rest"
    and "tag = type_byte STRING \<and> get16 rest = Some (slen, srest) \<and> length srest < unat slen"
  then show "decode widen this buffer offset = Inl Truncated"
    by (simp add: decode_at [OF at] dec_scalar_def get_bytes_short del: type_byte.simps)
next
  assume at: "drop (unat offset) buffer = tag # rest"
    and "(tag = type_byte LONG_STRING \<or> tag = type_byte BYTE_ARRAY) \<and>
       get32 rest = Some (llen, lrest) \<and> length lrest < unat llen"
  then show "decode widen this buffer offset = Inl Truncated"
    by (auto simp: decode_at [OF at] dec_scalar_def get_bytes_short simp del: type_byte.simps)
next
  assume at: "drop (unat offset) buffer = tag # rest"
    and h: "(tag = type_byte OBJECT \<or> tag = type_byte ARRAY \<or> tag = type_byte DICTIONARY) \<and>
       get32 rest = Some (count, crest) \<and> length crest < unat count"
  let ?child = "dec widen (length rest) Value_default"
  have child: "\<And>bs x r. ?child bs = Inr (x, r) \<Longrightarrow> length r < length bs"
    using dec_length [of widen "length rest" Value_default] by blast
  from h have short: "length crest < unat count" by simp
  have entry: "\<And>bs x r. object_entry ?child bs = Inr (x, r) \<Longrightarrow> length r < length bs"
    using object_entry_length [where p = ?child] child by blast
  have key_entry:
    "\<And>bs x r. dictionary_entry ?child bs = Inr (x, r) \<Longrightarrow> length r < length bs"
    using dictionary_entry_length [where p = ?child] child by blast
  obtain e1 where e1: "repeat_parse (unat count) ?child crest = Inl e1"
    using repeat_parse_short [where p = ?child and bs = crest and c = "unat count"] child short
    by blast
  obtain e2 where e2: "repeat_parse (unat count) (object_entry ?child) crest = Inl e2"
    using repeat_parse_short [where p = "object_entry ?child" and bs = crest and c = "unat count"]
      entry short
    by blast
  obtain e3 where e3: "repeat_parse (unat count) (dictionary_entry ?child) crest = Inl e3"
    using repeat_parse_short
      [where p = "dictionary_entry ?child" and bs = crest and c = "unat count"]
      key_entry short
    by blast
  from h e1 e2 e3 show "\<exists>e. decode widen this buffer offset = Inl e"
    by (auto simp: decode_at [OF at] simp del: type_byte.simps)
next
  fix m that
  assume ok: "decode widen this buffer offset = Inr (m, that)"
  let ?unread = "drop (unat offset) buffer"
  from ok obtain r where d: "dec widen (length ?unread) this ?unread = Inr (that, r)"
    and m: "m = of_nat (length ?unread - length r)"
    by (auto simp: decode_def Let_def split: sum.splits)
  from dec_length [OF d] have "?unread \<noteq> []" by auto
  then have "unat offset \<le> length buffer" by simp
  moreover have "unat m \<le> length ?unread - length r"
    unfolding m by (simp add: unat_of_nat)
  ultimately show "unat offset + unat m \<le> length buffer"
    by simp
qed

theorem decode_malformed_witness:
  "drop (unat (0 :: 32 word)) [7, 0, 100, 1, 2, 3, 4, 5, 6, 7, 8, 9, 10 :: byte] =
     7 # [0, 100, 1, 2, 3, 4, 5, 6, 7, 8, 9, 10] \<and>
   7 = type_byte STRING \<and>
   get16 [0, 100, 1, 2, 3, 4, 5, 6, 7, 8, 9, 10 :: byte] =
     Some (100, [1, 2, 3, 4, 5, 6, 7, 8, 9, 10]) \<and>
   length [1, 2, 3, 4, 5, 6, 7, 8, 9, 10 :: byte] < unat (100 :: 16 word) \<and>
   decode ucast Value_default [7, 0, 100, 1, 2, 3, 4, 5, 6, 7, 8, 9, 10] 0 = Inl Truncated \<and>
   drop (unat (0 :: 32 word)) [13 :: byte] = 13 # [] \<and> 12 < unat (13 :: byte) \<and>
   decode ucast Value_default [13] 0 = Inl UnknownTag \<and>
   length ([] :: byte list) \<le> unat (0 :: 32 word) \<and>
   decode ucast Value_default [] 0 = Inl Truncated \<and>
   wire_node (drop (unat (0 :: 32 word)) [3, 1, 2] @ [0, 0]) \<and>
   decode ucast Value_default [3, 1, 2] 0 = Inl Truncated \<and>
   wire_node (drop (unat (0 :: 32 word)) [12, 0, 0, 0, 1, 0, 100, 97]
              @ replicate 99 0 @ [0]) \<and>
   decode ucast Value_default [12, 0, 0, 0, 1, 0, 100, 97] 0 = Inl Truncated \<and>
   wire_node (drop (unat (0 :: 32 word))
                [11, 0, 0, 0, 1, 7, 0, 100, 1, 2, 3, 4, 5, 6, 7, 8, 9, 10]
              @ replicate 90 0) \<and>
   decode ucast Value_default [11, 0, 0, 0, 1, 7, 0, 100, 1, 2, 3, 4, 5, 6, 7, 8, 9, 10] 0 =
     Inl Truncated \<and>
   drop (unat (0 :: 32 word)) [1, 44 :: byte] = [1, 44] @ [] \<and> wire_node [1, 44] \<and>
   (\<exists>that. decode ucast Value_default [1, 44] 0 = Inr (2, that)) \<and>
   (decode ucast Value_default [11, 0, 0, 0, 1, 13] 0 = Inl UnknownTag \<or>
    decode ucast Value_default [11, 0, 0, 0, 1, 13] 0 = Inl Truncated)"
proof -
  have int_node: "wire_node ([3, 1, 2] @ [0, 0])"
    using int32 [of "[1, 2, 0, 0]"] by simp
  have key: "length (97 # replicate 99 (0 :: byte)) = unat (100 :: 16 word)"
    by simp
  have "wire_dictionary_entries (Suc 0) (put16 100 @ (97 # replicate 99 0) @ [0] @ [])"
    using more_dictionary_entries [OF key, of "[0]" 0 "[]"] none no_dictionary_entries
    by simp
  then have "wire_node (type_byte DICTIONARY # put32 1 @ put16 100 @ (97 # replicate 99 0) @ [0])"
    using dictionary [of 1 "put16 100 @ (97 # replicate 99 0) @ [0]"] by simp
  then have dict_node: "wire_node ([12, 0, 0, 0, 1, 0, 100, 97] @ replicate 99 0 @ [0])"
    by (simp add: put16_def put32_def)
  have payload: "length ([1, 2, 3, 4, 5, 6, 7, 8, 9, 10] @ replicate 90 (0 :: byte))
      = unat (100 :: 16 word)"
    by simp
  have "wire_nodes (Suc 0)
      ((type_byte STRING # put16 100 @ [1, 2, 3, 4, 5, 6, 7, 8, 9, 10] @ replicate 90 0) @ [])"
    using more_nodes [OF string [OF payload] no_nodes] .
  then have "wire_node (type_byte ARRAY # put32 1 @
      (type_byte STRING # put16 100 @ [1, 2, 3, 4, 5, 6, 7, 8, 9, 10] @ replicate 90 0))"
    using array [of 1 "type_byte STRING # put16 100 @ [1, 2, 3, 4, 5, 6, 7, 8, 9, 10]
      @ replicate 90 0"] by simp
  then have array_node: "wire_node
      ([11, 0, 0, 0, 1, 7, 0, 100, 1, 2, 3, 4, 5, 6, 7, 8, 9, 10] @ replicate 90 0)"
    by (simp add: put16_def put32_def)
  have small: "wire_node [1, 44]"
    using int8 [of "[44]"] by simp
  have empty: "\<not> wire_node []"
    by (rule notI, erule wire_node.cases) simp_all
  have unknown: "\<not> wire_node [13]"
    by (rule notI, erule wire_node.cases) simp_all
  have children: "\<not> wire_nodes k [13]" for k
    by (rule notI, erule wire_nodes.cases)
      (use empty unknown in \<open>auto simp: Cons_eq_append_conv\<close>)
  have no_children: "k = 0" if "wire_nodes k []" for k
    using that by (rule wire_nodes.cases) (use empty in auto)
  have arr: "\<exists>count es. t = put32 count @ es \<and> wire_nodes (unat count) es"
    if "wire_node (11 # t)" for t
    using that by (rule wire_node.cases) auto
  have "\<not> wire_node c" if split: "[11, 0, 0, 0, 1, 13] = c @ r" for c r
  proof
    assume w: "wire_node c"
    from split consider "c = []" | "c = [11]" | "c = [11, 0]" | "c = [11, 0, 0]"
      | "c = [11, 0, 0, 0]" | "c = [11, 0, 0, 0, 1]" | "c = [11, 0, 0, 0, 1, 13]"
      by (auto simp: Cons_eq_append_conv)
    then show False
    proof cases
      case 1 with w empty show False by simp
    next
      case 2 with w arr [of "[]"] show False by (auto simp: put32_def)
    next
      case 3 with w arr [of "[0]"] show False by (auto simp: put32_def)
    next
      case 4 with w arr [of "[0, 0]"] show False by (auto simp: put32_def)
    next
      case 5 with w arr [of "[0, 0, 0]"] show False by (auto simp: put32_def)
    next
      case 6
      with w arr [of "[0, 0, 0, 1]"] obtain count where
        c: "[0, 0, 0, 1] = put32 count" and n: "wire_nodes (unat count) []"
        by (auto simp: put32_def)
      from no_children [OF n] have "count = 0" by (simp add: unat_eq_0)
      with c show False by (simp add: put32_def)
    next
      case 7
      with w arr [of "[0, 0, 0, 1, 13]"] children show False
        by (auto simp: put32_def)
    qed
  qed
  then have incomplete: "\<forall>c r. drop (unat (0 :: 32 word)) [11, 0, 0, 0, 1, 13] = c @ r
      \<longrightarrow> \<not> wire_node c"
    by simp
  from decode_malformed [where buffer = "[11, 0, 0, 0, 1, 13]" and offset = 0
      and widen = ucast and this = Value_default] incomplete
  have nested: "decode ucast Value_default [11, 0, 0, 0, 1, 13] 0 = Inl UnknownTag \<or>
      decode ucast Value_default [11, 0, 0, 0, 1, 13] 0 = Inl Truncated"
    by blast
  show ?thesis
    using decode_malformed [where buffer = "[7, 0, 100, 1, 2, 3, 4, 5, 6, 7, 8, 9, 10]"
        and offset = 0 and tag = 7 and rest = "[0, 100, 1, 2, 3, 4, 5, 6, 7, 8, 9, 10]"
        and slen = 100 and srest = "[1, 2, 3, 4, 5, 6, 7, 8, 9, 10]"
        and widen = ucast and this = Value_default]
      decode_malformed [where buffer = "[13]" and offset = 0 and tag = 13 and rest = "[]"
        and widen = ucast and this = Value_default]
      decode_malformed [where buffer = "[]" and offset = 0
        and widen = ucast and this = Value_default]
      decode_malformed [where buffer = "[3, 1, 2]" and offset = 0 and missing = "[0, 0]"
        and widen = ucast and this = Value_default]
      decode_malformed [where buffer = "[12, 0, 0, 0, 1, 0, 100, 97]" and offset = 0
        and missing = "replicate 99 0 @ [0]" and widen = ucast and this = Value_default]
      decode_malformed
        [where buffer = "[11, 0, 0, 0, 1, 7, 0, 100, 1, 2, 3, 4, 5, 6, 7, 8, 9, 10]"
        and offset = 0 and missing = "replicate 90 0" and widen = ucast
        and this = Value_default]
      decode_malformed [where buffer = "[1, 44]" and offset = 0 and node = "[1, 44]"
        and after = "[]" and widen = ucast and this = Value_default]
      int_node dict_node array_node small nested
    by simp
qed

end
